theory Spec2Isabelle
  imports Main "HOL-Library.AList"
begin

section \<open>Variable resolution of \<^verbatim>\<open>src/buildstream/_variables.pyx\<close>\<close>

text \<open>
  The module resolves \<^verbatim>\<open>%{name}\<close> references between the variables of one element.
  Python strings are modelled as \<^typ>\<open>string\<close>. The characters that the parser
  distinguishes (\<^verbatim>\<open>%\<close>, \<^verbatim>\<open>{\<close>, \<^verbatim>\<open>}\<close>, ASCII letters, digits, \<^verbatim>\<open>_\<close>, \<^verbatim>\<open>-\<close>) are ASCII, so a
  UTF-8 byte string is split at the same places as the code-point string it encodes.

  Exceptions are values of \<open>error\<close>. A \<^verbatim>\<open>LoadError\<close> carries its
  \<^verbatim>\<open>LoadErrorReason\<close>; the message text and the provenance that is only formatted into
  the message are left out. \<open>KeyError\<close>, \<open>TypeError\<close> and \<open>AttributeError\<close> stand for the
  faults that a dictionary lookup, \<^verbatim>\<open>"".join\<close> over a list holding \<^verbatim>\<open>None\<close>, and an attribute
  access on \<^verbatim>\<open>None\<close> produce.
\<close>

datatype LoadErrorReason = UNRESOLVED_VARIABLE | CIRCULAR_REFERENCE_VARIABLE

datatype error = LoadError LoadErrorReason | KeyError | TypeError | AttributeError

subsection \<open>\<^verbatim>\<open>ValuePart\<close>, \<^verbatim>\<open>ValueClass\<close> and the parser\<close>

text \<open>
  \<^verbatim>\<open>ValuePart\<close> is a linked list through \<^verbatim>\<open>next_part\<close>; the model keeps the parts of a
  \<^verbatim>\<open>ValueClass\<close> as a list. \<^verbatim>\<open>variable_names\<close> is a Python set; the model keeps its
  members as a list, in the order in which the set is iterated. Python does not fix that
  order, so the statements about resolution below quantify over every store, hence over
  every order of these lists. The parser of the model has to pick one order for the set
  that it builds; no statement below depends on which.
\<close>

record ValuePart =
  part_text :: string
  is_variable :: bool

record ValueClass =
  variable_names :: "string list"
  parts :: "ValuePart list"

text \<open>
  \<^verbatim>\<open>VALUE_CLASS_PARSE_EXPANSION = re.compile(r"\%\{([a-zA-Z][a-zA-Z0-9_-]*)\}")\<close>.
  \<open>match_expansion s\<close> matches the expression at the start of \<open>s\<close> and returns group 1 and
  the text after the match. The star is greedy and \<^verbatim>\<open>}\<close> is not in its class, so the
  only candidate for the name is the longest run of name characters: a shorter run is
  followed by a name character, never by \<^verbatim>\<open>}\<close>.
\<close>

definition is_alpha :: "char \<Rightarrow> bool" where
  "is_alpha c \<longleftrightarrow> c \<in> set ''abcdefghijklmnopqrstuvwxyzABCDEFGHIJKLMNOPQRSTUVWXYZ''"

definition is_name_char :: "char \<Rightarrow> bool" where
  "is_name_char c \<longleftrightarrow> is_alpha c \<or> c \<in> set ''0123456789_-''"

definition match_expansion :: "string \<Rightarrow> (string \<times> string) option" where
  "match_expansion s =
     (case s of
        a # b # c # cs \<Rightarrow>
          if a = CHR ''%'' \<and> b = CHR ''{'' \<and> is_alpha c then
            (case dropWhile is_name_char cs of
               d # rest \<Rightarrow>
                 if d = CHR ''}'' then Some (c # takeWhile is_name_char cs, rest) else None
             | [] \<Rightarrow> None)
          else None
      | _ \<Rightarrow> None)"

lemma match_expansion_shorter:
  "match_expansion s = Some (name, rest) \<Longrightarrow> length rest < length s"
proof -
  assume m: "match_expansion s = Some (name, rest)"
  then obtain a b c cs d where s: "s = a # b # c # cs"
    and dw: "dropWhile is_name_char cs = d # rest"
    by (auto simp: match_expansion_def split: list.splits if_splits)
  have "length (dropWhile is_name_char cs) \<le> length cs"
    by (rule length_dropWhile_le)
  with dw s show ?thesis by simp
qed

text \<open>
  \<^verbatim>\<open>VALUE_CLASS_PARSE_EXPANSION.split(string)\<close>: the matches are found from left to right,
  each search starting where the previous match ended. The result alternates the text
  between the matches (even indices, possibly empty) with group 1 of each match (odd
  indices). \<open>lit\<close> is the unmatched text collected since the last match.
\<close>

function re_split :: "string \<Rightarrow> string \<Rightarrow> string list" where
  "re_split lit [] = [lit]"
| "re_split lit (c # cs) =
     (case match_expansion (c # cs) of
        Some (name, rest) \<Rightarrow> lit # name # re_split [] rest
      | None \<Rightarrow> re_split (lit @ [c]) cs)"
  by pat_completeness auto
termination
  by (relation "measure (\<lambda>(lit, s). length s)")
     (auto dest: match_expansion_shorter)

text \<open>
  The loop of \<^verbatim>\<open>ValueClass._parse_string\<close> over \<^verbatim>\<open>splits\<close>, with \<^verbatim>\<open>split_idx\<close>. An empty
  split makes no part.
\<close>

fun parse_splits :: "string list \<Rightarrow> nat \<Rightarrow> ValuePart list" where
  "parse_splits [] split_idx = []"
| "parse_splits (split # splits) split_idx =
     (if split \<noteq> [] then
        \<lparr>part_text = split, is_variable = (split_idx mod 2 \<noteq> 0)\<rparr>
          # parse_splits splits (split_idx + 1)
      else parse_splits splits (split_idx + 1))"

definition parse_string :: "string \<Rightarrow> ValuePart list" where
  "parse_string string = parse_splits (re_split [] string) 0"

text \<open>
  \<^verbatim>\<open>ValueClass.init\<close>. \<^verbatim>\<open>self.variable_names.add(split)\<close> runs for every variable part, so
  the set holds the texts of the variable parts. The table \<^verbatim>\<open>VALUE_CLASS_TABLE\<close> only
  shares the immutable result of parsing equal strings; \<^verbatim>\<open>Value._load_value_class\<close> is
  therefore the parser itself.
\<close>

definition ValueClass_init :: "string \<Rightarrow> ValueClass" where
  "ValueClass_init string =
     (let ps = parse_string string
      in \<lparr>variable_names = remdups (map part_text (filter is_variable ps)), parts = ps\<rparr>)"

text \<open>
  The words in which the parser is described: the grammar \<^verbatim>\<open>[a-zA-Z][a-zA-Z0-9_-]*\<close> of a
  name, the text \<^verbatim>\<open>%{name}\<close> that a variable part stands for, two literal parts in a row,
  and \<^verbatim>\<open>VALUE_CLASS_PARSE_EXPANSION.search(s) is not None\<close>.
\<close>

definition valid_name :: "string \<Rightarrow> bool" where
  "valid_name n \<longleftrightarrow> (case n of [] \<Rightarrow> False | c # cs \<Rightarrow> is_alpha c \<and> list_all is_name_char cs)"

definition render :: "ValuePart list \<Rightarrow> string" where
  "render ps =
     concat (map (\<lambda>p. if is_variable p then ''%{'' @ part_text p @ ''}'' else part_text p) ps)"

fun adjacent_literals :: "ValuePart list \<Rightarrow> bool" where
  "adjacent_literals (p # q # ps) =
     ((\<not> is_variable p \<and> \<not> is_variable q) \<or> adjacent_literals (q # ps))"
| "adjacent_literals _ = False"

fun search_expansion :: "string \<Rightarrow> bool" where
  "search_expansion [] = False"
| "search_expansion (c # cs) = (match_expansion (c # cs) \<noteq> None \<or> search_expansion cs)"

subsection \<open>\<^verbatim>\<open>Value\<close>\<close>

text \<open>
  A \<^verbatim>\<open>Value\<close> has its \<^verbatim>\<open>ValueClass\<close> and the memo \<^verbatim>\<open>_resolved\<close>, \<^verbatim>\<open>None\<close> until resolved.
  The dictionary \<^verbatim>\<open>Variables._values\<close> keeps its keys in insertion order and is modelled
  as an association list read with \<^const>\<open>map_of\<close>. The \<^verbatim>\<open>Value\<close> objects live in this
  dictionary and nowhere else; keys are never removed. A reference to a stored \<^verbatim>\<open>Value\<close>
  is therefore modelled by its key, and a write to \<^verbatim>\<open>_resolved\<close> of that object by an
  update of the entry.
\<close>

record Value =
  value_class :: ValueClass
  resolved :: "string option"

type_synonym value_table = "(string \<times> Value) list"

definition Value_init :: "string \<Rightarrow> Value" where
  "Value_init string = \<lparr>value_class = ValueClass_init string, resolved = None\<rparr>"

definition dependencies :: "Value \<Rightarrow> string list" where
  "dependencies self =
     (if resolved self = None then variable_names (value_class self) else [])"

text \<open>
  The loop of \<^verbatim>\<open>Value.resolve\<close> over the parts: \<^verbatim>\<open>values[part.text]\<close> raises \<open>KeyError\<close> for
  a missing name, and \<^verbatim>\<open>part_var._resolved\<close>, which may be \<^verbatim>\<open>None\<close>, is appended as it is.
\<close>

fun resolve_parts :: "value_table \<Rightarrow> ValuePart list \<Rightarrow> error + string option list" where
  "resolve_parts values [] = Inr []"
| "resolve_parts values (part # rest) =
     (if is_variable part then
        (case map_of values (part_text part) of
           None \<Rightarrow> Inl KeyError
         | Some part_var \<Rightarrow>
             (case resolve_parts values rest of
                Inl e \<Rightarrow> Inl e
              | Inr ps \<Rightarrow> Inr (resolved part_var # ps)))
      else
        (case resolve_parts values rest of
           Inl e \<Rightarrow> Inl e
         | Inr ps \<Rightarrow> Inr (Some (part_text part) # ps)))"

text \<open>\<^verbatim>\<open>"".join(parts)\<close> raises \<open>TypeError\<close> when an item is \<^verbatim>\<open>None\<close>.\<close>

definition join :: "string option list \<Rightarrow> error + string" where
  "join ps = (if None \<in> set ps then Inl TypeError else Inr (concat (map the ps)))"

text \<open>\<^verbatim>\<open>Value.resolve\<close> returns the string and the object with its memo written.\<close>

definition Value_resolve :: "value_table \<Rightarrow> Value \<Rightarrow> error + (string \<times> Value)" where
  "Value_resolve values self =
     (case resolved self of
        Some s \<Rightarrow> Inr (s, self)
      | None \<Rightarrow>
          (case resolve_parts values (parts (value_class self)) of
             Inl e \<Rightarrow> Inl e
           | Inr ps \<Rightarrow>
               (case join ps of
                  Inl e \<Rightarrow> Inl e
                | Inr s \<Rightarrow> Inr (s, self\<lparr>resolved := Some s\<rparr>))))"

subsection \<open>\<^verbatim>\<open>ResolutionStep\<close>\<close>

text \<open>
  A step has its \<^verbatim>\<open>referee\<close> (\<^verbatim>\<open>None\<close> for the first step), its \<^verbatim>\<open>varnames\<close> and its
  \<^verbatim>\<open>parent\<close>. The \<^verbatim>\<open>prev\<close> links form the stack of pending steps, which the model keeps
  as a list with the top first. Referees are interned strings or \<^verbatim>\<open>None\<close>, for which
  \<^verbatim>\<open>is\<close> is equality. A step is never its own ancestor, so along a parent chain
  \<^verbatim>\<open>step is not conflict\<close> is inequality of the steps.
\<close>

datatype ResolutionStep =
  ResolutionStep (referee: "string option") (varnames: "string list")
    (parent: "ResolutionStep option")

text \<open>
  The loop of \<^verbatim>\<open>_raise_circular_reference_error\<close>, which collects the lines of the error
  detail and reads \<^verbatim>\<open>values[referee]\<close> for each. The result is the fault that stops the
  loop, if any.
\<close>

fun error_lines ::
  "value_table \<Rightarrow> ResolutionStep \<Rightarrow> ResolutionStep \<Rightarrow> ResolutionStep option \<Rightarrow> error option"
where
  "error_lines values self conflict None = Some AttributeError"
| "error_lines values self conflict (Some (ResolutionStep r ns p)) =
     (if ResolutionStep r ns p = conflict then None
      else
        (case (case p of Some p' \<Rightarrow> referee p' | None \<Rightarrow> referee self) of
           None \<Rightarrow> Some KeyError
         | Some referee' \<Rightarrow>
             (case map_of values referee' of
                None \<Rightarrow> Some KeyError
              | Some v \<Rightarrow> error_lines values self conflict p)))"

definition raise_circular_reference_error ::
  "value_table \<Rightarrow> ResolutionStep \<Rightarrow> ResolutionStep \<Rightarrow> error"
where
  "raise_circular_reference_error values self conflict =
     (case error_lines values self conflict (Some self) of
        Some e \<Rightarrow> e
      | None \<Rightarrow> LoadError CIRCULAR_REFERENCE_VARIABLE)"

text \<open>The loop of \<^verbatim>\<open>check_circular\<close> over the ancestors of \<open>self\<close>.\<close>

fun check_ancestors ::
  "value_table \<Rightarrow> ResolutionStep \<Rightarrow> ResolutionStep option \<Rightarrow> error + unit"
where
  "check_ancestors values self None = Inr ()"
| "check_ancestors values self (Some (ResolutionStep r ns p)) =
     (if referee self = r
      then Inl (raise_circular_reference_error values self (ResolutionStep r ns p))
      else check_ancestors values self p)"

definition check_circular :: "value_table \<Rightarrow> ResolutionStep \<Rightarrow> error + unit" where
  "check_circular values self = check_ancestors values self (parent self)"

subsection \<open>\<^verbatim>\<open>Variables._resolve\<close>\<close>

text \<open>
  \<^verbatim>\<open>_get_checked_value\<close>: the \<^verbatim>\<open>referee\<close> and the \<^verbatim>\<open>provenance\<close> only choose the text of the
  message, and every path of the handler ends in the same \<^verbatim>\<open>LoadError\<close>.
\<close>

definition get_checked_value :: "value_table \<Rightarrow> string \<Rightarrow> error + Value" where
  "get_checked_value values varname =
     (case map_of values varname of
        Some v \<Rightarrow> Inr v
      | None \<Rightarrow> Inl (LoadError UNRESOLVED_VARIABLE))"

text \<open>
  A loop body either raises, returns from the function, or goes on with the loop
  variables.
\<close>

datatype 'a flow = Raise error | Return string | Next 'a

text \<open>
  The \<^verbatim>\<open>for\<close> loop of \<^verbatim>\<open>_resolve\<close> over \<^verbatim>\<open>this_step.varnames\<close>. The loop variables are
  \<^verbatim>\<open>first_iteration\<close>, the stack \<^verbatim>\<open>step\<close> and the list \<^verbatim>\<open>deps\<close>, to which names are appended
  at the end. The early return calls \<^verbatim>\<open>resolve\<close> on a value whose memo is set, which
  writes nothing.
\<close>

fun for_varnames ::
  "value_table \<Rightarrow> ResolutionStep \<Rightarrow> string list
     \<Rightarrow> bool \<times> ResolutionStep list \<times> string list
     \<Rightarrow> (bool \<times> ResolutionStep list \<times> string list) flow"
where
  "for_varnames values this_step [] st = Next st"
| "for_varnames values this_step (iter_name # rest) (first_iteration, step, deps) =
     (case get_checked_value values iter_name of
        Inl e \<Rightarrow> Raise e
      | Inr iter_value \<Rightarrow>
          if first_iteration \<and> resolved iter_value \<noteq> None then
            (case Value_resolve values iter_value of
               Inl e \<Rightarrow> Raise e
             | Inr (s, _) \<Rightarrow> Return s)
          else if resolved iter_value = None then
            for_varnames values this_step rest
              (False,
               (if dependencies iter_value \<noteq> []
                then ResolutionStep (Some iter_name) (dependencies iter_value) (Some this_step)
                       # step
                else step),
               deps @ [iter_name])
          else for_varnames values this_step rest (False, step, deps))"

text \<open>
  The quantities that bound the first \<^verbatim>\<open>while\<close> loop. \<open>referees p\<close> lists the referees
  from \<open>p\<close> up its parent chain. A step that passes \<^verbatim>\<open>check_circular\<close> and names a
  stored variable has a referee that none of its ancestors has, so each level of
  the chain uses up one key of the table.
\<close>

fun referees :: "ResolutionStep option \<Rightarrow> string option list" where
  "referees None = []"
| "referees (Some (ResolutionStep r ns p)) = r # referees p"

definition budget :: "value_table \<Rightarrow> ResolutionStep \<Rightarrow> nat" where
  "budget values s = card (fst ` set values - {x. Some x \<in> set (referees (Some s))})"

definition fanout :: "value_table \<Rightarrow> nat" where
  "fanout values = sum_list (map (\<lambda>kv. length (variable_names (value_class (snd kv)))) values)"

definition weight :: "value_table \<Rightarrow> ResolutionStep \<Rightarrow> nat" where
  "weight values s =
     (if referee s \<in> set (referees (parent s)) then 1
      else 1 + length (varnames s) * (fanout values + 1) ^ budget values s)"

definition stack_weight :: "value_table \<Rightarrow> ResolutionStep list \<Rightarrow> nat" where
  "stack_weight values stack = sum_list (map (weight values) stack)"

lemma check_ancestors_Inr:
  "check_ancestors values self p = Inr () \<longleftrightarrow> referee self \<notin> set (referees p)"
  by (induction "values" self p rule: check_ancestors.induct) auto

lemma fanout_bound:
  "map_of values n = Some v \<Longrightarrow> length (variable_names (value_class v)) \<le> fanout values"
proof -
  assume "map_of values n = Some v"
  then have "(n, v) \<in> set values" by (rule map_of_SomeD)
  then have "length (variable_names (value_class (snd (n, v))))
      \<in> set (map (\<lambda>kv. length (variable_names (value_class (snd kv)))) values)"
    by force
  then show ?thesis
    unfolding fanout_def using member_le_sum_list by fastforce
qed

lemma referees_Some: "referees (Some s) = referee s # referees (parent s)"
  by (cases s) simp

lemma child_weight:
  assumes "map_of values n = Some v"
  shows "weight values (ResolutionStep (Some n) (dependencies v) (Some this))
           \<le> (fanout values + 1) ^ budget values this"
proof (cases "Some n \<in> set (referees (Some this))")
  case True
  then show ?thesis by (simp add: weight_def)
next
  case False
  let ?K = "fst ` set values - {x. Some x \<in> set (referees (Some this))}"
  let ?c = "ResolutionStep (Some n) (dependencies v) (Some this)"
  have nK: "n \<in> ?K" using assms False by (auto dest: map_of_SomeD intro: rev_image_eqI)
  have fin: "finite ?K" by simp
  have eq: "fst ` set values - {x. Some x \<in> set (referees (Some ?c))} = ?K - {n}"
    by auto
  have b: "budget values this = Suc (budget values ?c)"
    unfolding budget_def eq using nK fin
    by (metis card_Suc_Diff1)
  have len: "length (dependencies v) \<le> fanout values"
    using fanout_bound[OF assms] by (simp add: dependencies_def)
  have "weight values ?c = 1 + length (dependencies v) * (fanout values + 1) ^ budget values ?c"
    using False by (simp add: weight_def)
  also have "\<dots> \<le> 1 + fanout values * (fanout values + 1) ^ budget values ?c"
    using len by simp
  also have "\<dots> \<le> (fanout values + 1) ^ budget values this"
    unfolding b by simp
  finally show ?thesis .
qed

lemma for_varnames_weight:
  "for_varnames values this names (f, st, d) = Next (f', st', d') \<Longrightarrow>
   stack_weight values st' \<le> stack_weight values st + length names * (fanout values + 1) ^ budget values this"
proof (induction names arbitrary: f st d)
  case Nil
  then show ?case by simp
next
  case (Cons n names)
  from Cons.prems obtain v where v: "map_of values n = Some v"
    by (auto simp: get_checked_value_def split: option.splits)
  let ?W = "(fanout values + 1) ^ budget values this"
  let ?c = "ResolutionStep (Some n) (dependencies v) (Some this)"
  from Cons.prems v obtain st1 d1 where
    rec: "for_varnames values this names (False, st1, d1) = Next (f', st', d')"
    and st1: "st1 = st \<or> st1 = ?c # st"
    by (auto simp: get_checked_value_def split: if_splits sum.splits prod.splits)
  have "stack_weight values st1 \<le> stack_weight values st + ?W"
    using st1 child_weight[OF v, of this] by (auto simp: stack_weight_def)
  moreover have "stack_weight values st' \<le> stack_weight values st1 + length names * ?W"
    using Cons.IH[OF rec] .
  ultimately show ?case by simp
qed

text \<open>
  The first \<^verbatim>\<open>while\<close> loop of \<^verbatim>\<open>_resolve\<close>: pop the top step, check it, run the \<^verbatim>\<open>for\<close> loop.
  It ends with \<^verbatim>\<open>deps\<close> when the stack is empty.
\<close>

function while_step ::
  "value_table \<Rightarrow> bool \<Rightarrow> ResolutionStep list \<Rightarrow> string list \<Rightarrow> string list flow"
where
  "while_step values first_iteration [] deps = Next deps"
| "while_step values first_iteration (this_step # step) deps =
     (case check_circular values this_step of
        Inl e \<Rightarrow> Raise e
      | Inr _ \<Rightarrow>
          (case for_varnames values this_step (varnames this_step)
                  (first_iteration, step, deps) of
             Raise e \<Rightarrow> Raise e
           | Return s \<Rightarrow> Return s
           | Next (first_iteration', step', deps') \<Rightarrow>
               while_step values first_iteration' step' deps'))"
  by pat_completeness auto
termination
  apply (relation "measure (\<lambda>(vs, f, stack, d). stack_weight vs stack)")
   apply simp
  apply (clarsimp simp: check_circular_def check_ancestors_Inr)
  apply (drule for_varnames_weight)
  apply (simp add: stack_weight_def weight_def)
  done

text \<open>
  The second \<^verbatim>\<open>while\<close> loop of \<^verbatim>\<open>_resolve\<close>. \<^verbatim>\<open>deps.pop()\<close> takes the last item, so the loop
  runs over the reversed list. \<^verbatim>\<open>resolved_value\<close> is \<^verbatim>\<open>None\<close> until the first assignment.
  A name in \<^verbatim>\<open>deps\<close> refers to a stored object, so the lookup of that object cannot
  fail; the model gives that case \<open>KeyError\<close>.
\<close>

fun while_deps ::
  "value_table \<Rightarrow> string list \<Rightarrow> string option \<Rightarrow> (error + string option) \<times> value_table"
where
  "while_deps values [] resolved_value = (Inr resolved_value, values)"
| "while_deps values (iter_name # rest) resolved_value =
     (case map_of values iter_name of
        None \<Rightarrow> (Inl KeyError, values)
      | Some iter_value \<Rightarrow>
          (case Value_resolve values iter_value of
             Inl e \<Rightarrow> (Inl e, values)
           | Inr (s, iter_value') \<Rightarrow>
               while_deps (AList.update iter_name iter_value' values) rest (Some s)))"

text \<open>
  \<^verbatim>\<open>Variables._resolve\<close> returns \<^verbatim>\<open>resolved_value\<close>, a \<^verbatim>\<open>str\<close> variable that Cython
  initialises to \<^verbatim>\<open>None\<close>, together with the table after the call.
\<close>

definition Variables_resolve ::
  "value_table \<Rightarrow> string \<Rightarrow> (error + string option) \<times> value_table"
where
  "Variables_resolve values name =
     (case while_step values True [ResolutionStep None [name] None] [] of
        Raise e \<Rightarrow> (Inl e, values)
      | Return s \<Rightarrow> (Inr (Some s), values)
      | Next deps \<Rightarrow> while_deps values (rev deps) None)"

subsection \<open>The operations of \<^verbatim>\<open>Variables\<close>\<close>

definition getitem :: "value_table \<Rightarrow> string \<Rightarrow> (error + string option) \<times> value_table" where
  "getitem values name = Variables_resolve values name"

definition contains :: "value_table \<Rightarrow> string \<Rightarrow> bool" where
  "contains values name \<longleftrightarrow> name \<in> fst ` set values"

text \<open>
  \<^verbatim>\<open>Variables.get\<close>: the handler catches every \<^verbatim>\<open>LoadError\<close>. For the reason
  \<^verbatim>\<open>UNRESOLVED_VARIABLE\<close> it returns \<^verbatim>\<open>None\<close>. For any other reason the \<^verbatim>\<open>if\<close> has no
  \<^verbatim>\<open>else\<close> and the handler does not raise again, so control leaves the \<^verbatim>\<open>try\<close> statement
  and reaches the end of the function, which returns \<^verbatim>\<open>None\<close>. Other exceptions are not
  caught.
\<close>

definition get :: "value_table \<Rightarrow> string \<Rightarrow> (error + string option) \<times> value_table" where
  "get values name =
     (case Variables_resolve values name of
        (Inr s, values') \<Rightarrow> (Inr s, values')
      | (Inl (LoadError reason), values') \<Rightarrow>
          if reason = UNRESOLVED_VARIABLE then (Inr None, values')
          else (Inr None, values')
      | (Inl e, values') \<Rightarrow> (Inl e, values'))"

text \<open>
  The loop \<^verbatim>\<open>for ...: self._resolve(...)\<close> of \<^verbatim>\<open>subst\<close> and of \<^verbatim>\<open>check\<close>: the results are
  dropped, the first exception ends the loop.
\<close>

fun resolve_each :: "value_table \<Rightarrow> string list \<Rightarrow> (error + unit) \<times> value_table" where
  "resolve_each values [] = (Inr (), values)"
| "resolve_each values (name # rest) =
     (case Variables_resolve values name of
        (Inl e, values') \<Rightarrow> (Inl e, values')
      | (Inr _, values') \<Rightarrow> resolve_each values' rest)"

text \<open>
  \<^verbatim>\<open>Variables.subst\<close>, on the text of the scalar node. The \<^verbatim>\<open>Value\<close> made here is not
  stored, so the write of its memo is dropped with it.
\<close>

definition subst :: "value_table \<Rightarrow> string \<Rightarrow> (error + string) \<times> value_table" where
  "subst values node =
     (let value = Value_init node
      in case resolve_each values (dependencies value) of
           (Inl e, values') \<Rightarrow> (Inl e, values')
         | (Inr _, values') \<Rightarrow>
             (case Value_resolve values' value of
                Inl e \<Rightarrow> (Inl e, values')
              | Inr (s, _) \<Rightarrow> (Inr s, values')))"

definition check :: "value_table \<Rightarrow> (error + unit) \<times> value_table" where
  "check values = resolve_each values (map fst values)"

text \<open>
  The document tree of \<^verbatim>\<open>expand\<close>. \<^verbatim>\<open>_expand\<close> changes the tree in place; the model
  returns the tree as it is when the call ends, also when it ends with an exception.
\<close>

datatype Node =
  ScalarNode string
| SequenceNode "Node list"
| MappingNode "(string \<times> Node) list"

fun expand :: "value_table \<Rightarrow> Node \<Rightarrow> (error + unit) \<times> Node \<times> value_table"
  and expand_entries ::
    "value_table \<Rightarrow> Node list \<Rightarrow> (error + unit) \<times> Node list \<times> value_table"
  and expand_items ::
    "value_table \<Rightarrow> (string \<times> Node) list
       \<Rightarrow> (error + unit) \<times> (string \<times> Node) list \<times> value_table"
where
  "expand values (ScalarNode t) =
     (case subst values t of
        (Inl e, values') \<Rightarrow> (Inl e, ScalarNode t, values')
      | (Inr s, values') \<Rightarrow> (Inr (), ScalarNode s, values'))"
| "expand values (SequenceNode entries) =
     (case expand_entries values entries of
        (r, entries', values') \<Rightarrow> (r, SequenceNode entries', values'))"
| "expand values (MappingNode items) =
     (case expand_items values items of
        (r, items', values') \<Rightarrow> (r, MappingNode items', values'))"
| "expand_entries values [] = (Inr (), [], values)"
| "expand_entries values (entry # rest) =
     (case expand values entry of
        (Inl e, entry', values') \<Rightarrow> (Inl e, entry' # rest, values')
      | (Inr _, entry', values') \<Rightarrow>
          (case expand_entries values' rest of
             (r, rest', values'') \<Rightarrow> (r, entry' # rest', values'')))"
| "expand_items values [] = (Inr (), [], values)"
| "expand_items values ((key, entry) # rest) =
     (case expand values entry of
        (Inl e, entry', values') \<Rightarrow> (Inl e, (key, entry') # rest, values')
      | (Inr _, entry', values') \<Rightarrow>
          (case expand_items values' rest of
             (r, rest', values'') \<Rightarrow> (r, (key, entry') # rest', values'')))"

text \<open>
  \<^verbatim>\<open>ValueIterator.__next__\<close>, with the keys that the dictionary iterator has not yet
  given. \<^verbatim>\<open>None\<close> stands for \<^verbatim>\<open>StopIteration\<close>. \<open>iterate\<close> takes items until the iterator
  stops or raises, as \<^verbatim>\<open>dict(variables)\<close> does; the keys that remain after an item are
  the tail of the keys before it.
\<close>

fun ValueIterator_next ::
  "value_table \<Rightarrow> string list
     \<Rightarrow> (error + (string \<times> string option) option) \<times> value_table \<times> string list"
where
  "ValueIterator_next values [] = (Inr None, values, [])"
| "ValueIterator_next values (name # rest) =
     (case getitem values name of
        (Inl e, values') \<Rightarrow> (Inl e, values', rest)
      | (Inr s, values') \<Rightarrow> (Inr (Some (name, s)), values', rest))"

fun iterate_from ::
  "value_table \<Rightarrow> string list \<Rightarrow> (error + (string \<times> string option) list) \<times> value_table"
where
  "iterate_from values [] = (Inr [], values)"
| "iterate_from values (name # rest) =
     (case ValueIterator_next values (name # rest) of
        (Inl e, values', _) \<Rightarrow> (Inl e, values')
      | (Inr None, values', _) \<Rightarrow> (Inr [], values')
      | (Inr (Some item), values', _) \<Rightarrow>
          (case iterate_from values' rest of
             (Inl e, values'') \<Rightarrow> (Inl e, values'')
           | (Inr items, values'') \<Rightarrow> (Inr (item # items), values'')))"

definition iterate ::
  "value_table \<Rightarrow> (error + (string \<times> string option) list) \<times> value_table"
where
  "iterate values = iterate_from values (map fst values)"

subsection \<open>Construction\<close>

text \<open>
  The input of \<^verbatim>\<open>Variables.__init__\<close> is a \<^verbatim>\<open>MappingNode\<close> whose values are scalar nodes; the
  model keeps it as the list of its items, each scalar by its text. The class
  \<^verbatim>\<open>MappingNode\<close> is outside this module: \<^verbatim>\<open>get_bool\<close> is a parameter of the model, and
  item assignment is the assignment of a dictionary, which replaces the value of a
  present key and appends an absent one.
\<close>

type_synonym mapping_node = "(string \<times> string) list"

definition init_values :: "mapping_node \<Rightarrow> value_table" where
  "init_values node =
     fold (\<lambda>(key, value_node) ret. AList.update key (Value_init value_node) ret) node []"

definition Variables_init ::
  "(mapping_node \<Rightarrow> string \<Rightarrow> bool \<Rightarrow> error + bool) \<Rightarrow> mapping_node \<Rightarrow> error + value_table"
where
  "Variables_init get_bool node =
     (case get_bool node ''notparallel'' False of
        Inl e \<Rightarrow> Inl e
      | Inr notparallel \<Rightarrow>
          Inr (init_values
                 (if notparallel then AList.update ''max-jobs'' ''1'' node else node)))"

text \<open>
  The operations that a caller can run on a store, and the table that each leaves.
\<close>

datatype operation =
  Lookup string | Get string | Subst string | Expand Node | Check | Iterate

fun perform :: "operation \<Rightarrow> value_table \<Rightarrow> value_table" where
  "perform (Lookup name) values = snd (getitem values name)"
| "perform (Get name) values = snd (get values name)"
| "perform (Subst node) values = snd (subst values node)"
| "perform (Expand node) values = snd (snd (expand values node))"
| "perform Check values = snd (check values)"
| "perform Iterate values = snd (iterate values)"

section \<open>References, expansions and invariants\<close>

text \<open>
  \<open>deps_of values n\<close> are the names that the template of \<open>n\<close> refers to, and \<open>dep\<close> is the
  reference relation. \<open>expands values n s\<close> says that \<open>s\<close> is the full expansion of \<open>n\<close>: the
  parts of its template in order, each literal part by its text and each variable part
  by the full expansion of the variable it names. It reads the templates only, never
  the memos.
\<close>

definition deps_of :: "value_table \<Rightarrow> string \<Rightarrow> string set" where
  "deps_of values n =
     (case map_of values n of None \<Rightarrow> {} | Some v \<Rightarrow> set (variable_names (value_class v)))"

definition dep :: "value_table \<Rightarrow> (string \<times> string) set" where
  "dep values = {(x, y). y \<in> deps_of values x}"

inductive expands :: "value_table \<Rightarrow> string \<Rightarrow> string \<Rightarrow> bool"
  and expands_parts :: "value_table \<Rightarrow> ValuePart list \<Rightarrow> string \<Rightarrow> bool"
  for "values" :: value_table
where
  expands_name:
    "map_of values n = Some v \<Longrightarrow> expands_parts values (parts (value_class v)) s \<Longrightarrow>
     expands values n s"
| expands_end:
    "expands_parts values [] []"
| expands_literal:
    "\<not> is_variable p \<Longrightarrow> expands_parts values ps s \<Longrightarrow>
     expands_parts values (p # ps) (part_text p @ s)"
| expands_variable:
    "is_variable p \<Longrightarrow> expands values (part_text p) e \<Longrightarrow> expands_parts values ps s \<Longrightarrow>
     expands_parts values (p # ps) (e @ s)"

text \<open>
  The invariant of a \<^verbatim>\<open>ValueClass\<close>: \<^verbatim>\<open>variable_names\<close> holds the texts of the variable
  parts. The invariant of the memos: a memo that is set is the full expansion of its
  variable. A table in which no memo is set satisfies it.
\<close>

definition wf_class :: "ValueClass \<Rightarrow> bool" where
  "wf_class c \<longleftrightarrow>
     set (variable_names c) = set (map part_text (filter is_variable (parts c)))"

definition wf_table :: "value_table \<Rightarrow> bool" where
  "wf_table values = list_all (\<lambda>kv. wf_class (value_class (snd kv))) values"

definition memo_ok :: "value_table \<Rightarrow> bool" where
  "memo_ok values \<longleftrightarrow>
     (\<forall>n v s. map_of values n = Some v \<longrightarrow> resolved v = Some s \<longrightarrow> expands values n s)"

text \<open>
  The steps that \<^verbatim>\<open>_resolve\<close> makes for the request \<open>name\<close>: the first step has no referee,
  no parent and at most the requested name; any other step has a stored referee that is
  one of the names of its parent, and its names are references of that referee.
\<close>

fun on_path :: "value_table \<Rightarrow> string \<Rightarrow> ResolutionStep \<Rightarrow> bool" where
  "on_path values name (ResolutionStep r ns None) = (r = None \<and> set ns \<subseteq> {name})"
| "on_path values name (ResolutionStep r ns (Some q)) =
     (\<exists>n. r = Some n \<and> n \<in> set (varnames q) \<and> map_of values n \<noteq> None
          \<and> set ns \<subseteq> deps_of values n \<and> on_path values name q)"

fun lineage :: "ResolutionStep option \<Rightarrow> ResolutionStep list" where
  "lineage None = []"
| "lineage (Some (ResolutionStep r ns p)) = ResolutionStep r ns p # lineage p"

text \<open>
  \<open>closed_upto values P deps\<close>: every name in \<open>deps\<close> is stored, and each of its references
  is stored and either has its memo set, or comes later in \<open>deps\<close>, or is still pending
  in \<open>P\<close>.
\<close>

definition settled :: "value_table \<Rightarrow> string list \<Rightarrow> string \<Rightarrow> bool" where
  "settled values post y \<longleftrightarrow>
     (\<exists>v. map_of values y = Some v \<and> (resolved v \<noteq> None \<or> y \<in> set post))"

fun closed_upto :: "value_table \<Rightarrow> string set \<Rightarrow> string list \<Rightarrow> bool" where
  "closed_upto values P [] = True"
| "closed_upto values P (x # post) =
     (map_of values x \<noteq> None
      \<and> (\<forall>y \<in> deps_of values x. settled values post y \<or> y \<in> P)
      \<and> closed_upto values P post)"

definition pending :: "ResolutionStep list \<Rightarrow> string set" where
  "pending stack = (\<Union>s \<in> set stack. set (varnames s))"

text \<open>
  The memo and the class stored under a name, and the relation between a table and a
  later one: the same classes under the same names, and every memo that was set is
  still set to the same string.
\<close>

definition memo :: "value_table \<Rightarrow> string \<Rightarrow> string option" where
  "memo values n = (case map_of values n of None \<Rightarrow> None | Some v \<Rightarrow> resolved v)"

definition class_of :: "value_table \<Rightarrow> string \<Rightarrow> ValueClass option" where
  "class_of values n = map_option value_class (map_of values n)"

definition extends :: "value_table \<Rightarrow> value_table \<Rightarrow> bool" where
  "extends values values' \<longleftrightarrow>
     (\<forall>n. class_of values' n = class_of values n)
     \<and> (\<forall>n s. memo values n = Some s \<longrightarrow> memo values' n = Some s)"

text \<open>
  The words in which \<^verbatim>\<open>expand\<close> is described: the texts of the scalar leaves of a tree in
  document order, the tree without those texts, and the substitution of a list of texts
  one after the other, which stops at the first exception and leaves the remaining
  texts as they are.
\<close>

fun leaves :: "Node \<Rightarrow> string list"
  and leaves_entries :: "Node list \<Rightarrow> string list"
  and leaves_items :: "(string \<times> Node) list \<Rightarrow> string list"
where
  "leaves (ScalarNode t) = [t]"
| "leaves (SequenceNode entries) = leaves_entries entries"
| "leaves (MappingNode items) = leaves_items items"
| "leaves_entries [] = []"
| "leaves_entries (entry # rest) = leaves entry @ leaves_entries rest"
| "leaves_items [] = []"
| "leaves_items ((key, entry) # rest) = leaves entry @ leaves_items rest"

fun shape :: "Node \<Rightarrow> Node"
  and shape_entries :: "Node list \<Rightarrow> Node list"
  and shape_items :: "(string \<times> Node) list \<Rightarrow> (string \<times> Node) list"
where
  "shape (ScalarNode t) = ScalarNode []"
| "shape (SequenceNode entries) = SequenceNode (shape_entries entries)"
| "shape (MappingNode items) = MappingNode (shape_items items)"
| "shape_entries [] = []"
| "shape_entries (entry # rest) = shape entry # shape_entries rest"
| "shape_items [] = []"
| "shape_items ((key, entry) # rest) = (key, shape entry) # shape_items rest"

fun subst_all :: "value_table \<Rightarrow> string list \<Rightarrow> (error + unit) \<times> string list \<times> value_table"
where
  "subst_all values [] = (Inr (), [], values)"
| "subst_all values (t # ts) =
     (case subst values t of
        (Inl e, values') \<Rightarrow> (Inl e, t # ts, values')
      | (Inr s, values') \<Rightarrow>
          (case subst_all values' ts of
             (r, ts', values'') \<Rightarrow> (r, s # ts', values'')))"

text \<open>
  Abbreviations for the proofs: the parts that a literal text makes, the string that a
  part contributes when a value is resolved, and the stack after the first step of
  \<^verbatim>\<open>_resolve\<close> on an unresolved value.
\<close>

definition literal_part :: "string \<Rightarrow> ValuePart list" where
  "literal_part lit = (if lit = [] then [] else [\<lparr>part_text = lit, is_variable = False\<rparr>])"

definition part_value :: "value_table \<Rightarrow> ValuePart \<Rightarrow> string option" where
  "part_value vs p = (if is_variable p then memo vs (part_text p) else Some (part_text p))"

definition first_stack :: "string \<Rightarrow> Value \<Rightarrow> ResolutionStep list" where
  "first_stack name v =
     (if dependencies v \<noteq> []
      then [ResolutionStep (Some name) (dependencies v) (Some (ResolutionStep None [name] None))]
      else [])"

section \<open>The memo is written once\<close>

lemma Value_resolve_memo: "resolved v = Some s \<Longrightarrow> Value_resolve vs v = Inr (s, v)"
  by (simp add: Value_resolve_def)

lemma Value_resolve_not_LoadError: "Value_resolve vs v \<noteq> Inl (LoadError r)"
proof -
  have "resolve_parts vs ps \<noteq> Inl (LoadError r)" for ps
    by (induction ps) (auto split: option.splits sum.splits)
  then show ?thesis
    by (auto simp: Value_resolve_def join_def split: option.splits sum.splits)
qed

lemma while_deps_not_LoadError: "fst (while_deps vs ds rv) \<noteq> Inl (LoadError r)"
  by (induction ds arbitrary: vs rv)
     (auto simp: Value_resolve_not_LoadError split: option.splits sum.splits prod.splits)

lemma Variables_resolve_LoadError_unchanged:
  "fst (Variables_resolve vs name) = Inl (LoadError r) \<Longrightarrow> snd (Variables_resolve vs name) = vs"
  by (auto simp: Variables_resolve_def while_deps_not_LoadError split: flow.splits)

lemma while_deps_keeps:
  "map_of vs n = Some v \<Longrightarrow> resolved v = Some s \<Longrightarrow> map_of (snd (while_deps vs ds rv)) n = Some v"
proof (induction ds arbitrary: vs rv)
  case Nil
  then show ?case by simp
next
  case (Cons d ds)
  show ?case
  proof (cases "map_of vs d")
    case None
    then show ?thesis using Cons.prems by simp
  next
    case (Some w)
    show ?thesis
    proof (cases "Value_resolve vs w")
      case (Inl e)
      then show ?thesis using Some Cons.prems by simp
    next
      case (Inr sw)
      obtain t w' where sw: "sw = (t, w')" by (cases sw)
      have "map_of (AList.update d w' vs) n = Some v"
      proof (cases "d = n")
        case True
        with Some Cons.prems have "w = v" by simp
        with Inr sw Cons.prems have "w' = v" by (simp add: Value_resolve_memo)
        with True Cons.prems show ?thesis by (simp add: update_conv')
      next
        case False
        with Cons.prems show ?thesis by (simp add: update_conv')
      qed
      from Cons.IH[OF this Cons.prems(2)] show ?thesis using Some Inr sw by simp
    qed
  qed
qed

lemma Variables_resolve_keeps:
  "map_of vs n = Some v \<Longrightarrow> resolved v = Some s \<Longrightarrow>
   map_of (snd (Variables_resolve vs name)) n = Some v"
  by (auto simp: Variables_resolve_def while_deps_keeps split: flow.splits)

lemma Variables_resolve_memo:
  "map_of vs n = Some v \<Longrightarrow> resolved v = Some s \<Longrightarrow>
   Variables_resolve vs n = (Inr (Some s), vs)"
  by (simp add: Variables_resolve_def check_circular_def get_checked_value_def
      Value_resolve_memo)

lemma resolve_each_keeps:
  "map_of vs n = Some v \<Longrightarrow> resolved v = Some s \<Longrightarrow>
   map_of (snd (resolve_each vs names)) n = Some v"
proof (induction names arbitrary: vs)
  case Nil
  then show ?case by simp
next
  case (Cons a names)
  from Cons.prems have k: "map_of (snd (Variables_resolve vs a)) n = Some v"
    by (rule Variables_resolve_keeps)
  show ?case
    using k Cons.IH[OF k Cons.prems(2)]
    by (auto split: prod.splits sum.splits)
qed

lemma get_keeps:
  "map_of vs n = Some v \<Longrightarrow> resolved v = Some s \<Longrightarrow> map_of (snd (get vs name)) n = Some v"
  using Variables_resolve_keeps[of vs n v s name]
  by (auto simp: get_def split: prod.splits sum.splits error.splits)

lemma subst_keeps:
  "map_of vs n = Some v \<Longrightarrow> resolved v = Some s \<Longrightarrow> map_of (snd (subst vs t)) n = Some v"
  using resolve_each_keeps[of vs n v s "dependencies (Value_init t)"]
  by (auto simp: subst_def Let_def split: prod.splits sum.splits)

lemma expand_keeps:
  "map_of vs n = Some v \<Longrightarrow> resolved v = Some s \<Longrightarrow> map_of (snd (snd (expand vs node))) n = Some v"
  "map_of vs n = Some v \<Longrightarrow> resolved v = Some s \<Longrightarrow> map_of (snd (snd (expand_entries vs entries))) n = Some v"
  "map_of vs n = Some v \<Longrightarrow> resolved v = Some s \<Longrightarrow> map_of (snd (snd (expand_items vs items))) n = Some v"
proof (induction vs node and vs entries and vs items rule: expand_expand_entries_expand_items.induct)
  case (1 vs t)
  then show ?case using subst_keeps[of vs n v s t] by (auto split: prod.splits sum.splits)
next
  case (2 vs entries)
  then show ?case by (auto split: prod.splits)
next
  case (3 vs items)
  then show ?case by (auto split: prod.splits)
next
  case (4 vs)
  then show ?case by simp
next
  case (5 vs entry rest)
  then show ?case by (fastforce split: prod.splits sum.splits)
next
  case (6 vs)
  then show ?case by simp
next
  case (7 vs key entry rest)
  then show ?case by (fastforce split: prod.splits sum.splits)
qed

lemma iterate_from_keeps:
  "map_of vs n = Some v \<Longrightarrow> resolved v = Some s \<Longrightarrow>
   map_of (snd (iterate_from vs names)) n = Some v"
proof (induction names arbitrary: vs)
  case Nil
  then show ?case by simp
next
  case (Cons a names)
  from Cons.prems have k: "map_of (snd (Variables_resolve vs a)) n = Some v"
    by (rule Variables_resolve_keeps)
  show ?case
    using k Cons.IH[OF k Cons.prems(2)]
    by (auto simp: getitem_def split: prod.splits sum.splits option.splits)
qed

lemma perform_keeps:
  "map_of vs n = Some v \<Longrightarrow> resolved v = Some s \<Longrightarrow> map_of (perform op vs) n = Some v"
  by (cases op)
     (simp_all add: getitem_def check_def iterate_def Variables_resolve_keeps get_keeps
        subst_keeps expand_keeps resolve_each_keeps iterate_from_keeps)

lemma fold_perform_keeps:
  "map_of vs n = Some v \<Longrightarrow> resolved v = Some s \<Longrightarrow> map_of (fold perform ops vs) n = Some v"
  by (induction ops arbitrary: vs) (simp_all add: perform_keeps)

lemma get_never_raises_LoadError: "fst (get vs name) \<noteq> Inl (LoadError reason)"
  by (auto simp: get_def split: prod.splits sum.splits error.splits)

section \<open>The parser\<close>

lemma not_name_char_brace: "\<not> is_name_char CHR ''}''"
  by (simp add: is_name_char_def is_alpha_def)

lemma match_expansion_Some:
  assumes "match_expansion s = Some (name, rest)"
  shows "s = ''%{'' @ name @ ''}'' @ rest" and "valid_name name"
proof -
  from assms obtain c cs where s: "s = CHR ''%'' # CHR ''{'' # c # cs" and al: "is_alpha c"
    and dw: "dropWhile is_name_char cs = CHR ''}'' # rest"
    and nm: "name = c # takeWhile is_name_char cs"
    by (auto simp: match_expansion_def split: list.splits if_splits)
  have "cs = takeWhile is_name_char cs @ dropWhile is_name_char cs" by simp
  with dw have "cs = takeWhile is_name_char cs @ CHR ''}'' # rest" by simp
  with s nm show "s = ''%{'' @ name @ ''}'' @ rest" by simp
  have "list_all is_name_char (takeWhile is_name_char cs)"
    by (simp add: list_all_iff) (meson set_takeWhileD)
  with al nm show "valid_name name" by (simp add: valid_name_def)
qed

lemma match_expansion_reference:
  assumes "valid_name n"
  shows "match_expansion (''%{'' @ n @ ''}'' @ w) = Some (n, w)"
proof -
  from assms obtain c cs where n: "n = c # cs" and al: "is_alpha c"
    and all: "list_all is_name_char cs"
    by (auto simp: valid_name_def split: list.splits)
  from all have "\<forall>x\<in>set cs. is_name_char x" by (simp add: list_all_iff)
  then have "dropWhile is_name_char (cs @ CHR ''}'' # w) = CHR ''}'' # w"
    and "takeWhile is_name_char (cs @ CHR ''}'' # w) = cs"
    by (simp_all add: dropWhile_append3 takeWhile_append2 not_name_char_brace
        dropWhile_append2)
  with n al show ?thesis by (simp add: match_expansion_def)
qed

lemma search_expansion_append: "search_expansion x \<Longrightarrow> search_expansion (u @ x)"
  by (induction u) auto

lemma search_expansion_reference:
  "valid_name n \<Longrightarrow> search_expansion (u @ ''%{'' @ n @ ''}'' @ w)"
proof -
  assume v: "valid_name n"
  have "search_expansion (''%{'' @ n @ ''}'' @ w)"
    using match_expansion_reference[OF v, of w] by simp
  then show ?thesis by (rule search_expansion_append)
qed

lemma match_expansion_extend:
  assumes "match_expansion a = Some (n, r)"
  shows "match_expansion (a @ b) = Some (n, r @ b)"
proof -
  from match_expansion_Some[OF assms] have "a = ''%{'' @ n @ ''}'' @ r" and v: "valid_name n"
    by simp_all
  then have "a @ b = ''%{'' @ n @ ''}'' @ (r @ b)" by simp
  then show ?thesis using match_expansion_reference[OF v, of "r @ b"] by simp
qed

lemma search_expansion_extend: "search_expansion a \<Longrightarrow> search_expansion (a @ b)"
proof (induction a)
  case Nil
  then show ?case by simp
next
  case (Cons c a)
  show ?case
  proof (cases "match_expansion (c # a)")
    case None
    with Cons show ?thesis by simp
  next
    case (Some nr)
    obtain n r where "nr = (n, r)" by (cases nr)
    with Some match_expansion_extend[of "c # a" n r b] show ?thesis by simp
  qed
qed

lemma parse_splits_shift: "parse_splits xs (Suc (Suc i)) = parse_splits xs i"
  by (induction xs arbitrary: i) simp_all

lemma parse_re_split_Nil: "parse_splits (re_split lit []) 0 = literal_part lit"
  by (simp add: literal_part_def)

lemma parse_re_split_match:
  assumes "match_expansion (c # cs) = Some (name, rest)"
  shows "parse_splits (re_split lit (c # cs)) 0
         = literal_part lit @ \<lparr>part_text = name, is_variable = True\<rparr>
             # parse_splits (re_split [] rest) 0"
proof -
  from match_expansion_Some(2)[OF assms] have "name \<noteq> []" by (auto simp: valid_name_def)
  with assms show ?thesis
    by (simp add: literal_part_def parse_splits_shift)
qed

lemma parse_re_split_skip:
  "match_expansion (c # cs) = None \<Longrightarrow>
   parse_splits (re_split lit (c # cs)) 0 = parse_splits (re_split (lit @ [c]) cs) 0"
  by simp

lemma render_literal_part: "render (literal_part lit @ ps) = lit @ render ps"
  by (simp add: render_def literal_part_def)

lemma render_parse: "render (parse_splits (re_split lit s) 0) = lit @ s"
proof (induction lit s rule: re_split.induct)
  case (1 lit)
  show ?case using render_literal_part[of lit "[]"] by (simp add: parse_re_split_Nil render_def)
next
  case (2 lit c cs)
  show ?case
  proof (cases "match_expansion (c # cs)")
    case None
    with 2 show ?thesis by (simp del: re_split.simps add: parse_re_split_skip)
  next
    case (Some nr)
    obtain name rest where nr: "nr = (name, rest)" by (cases nr)
    from Some nr have m: "match_expansion (c # cs) = Some (name, rest)" by simp
    from 2(2)[OF Some nr[symmetric]]
    have ih: "render (parse_splits (re_split [] rest) 0) = rest" by simp
    have "render (\<lparr>part_text = name, is_variable = True\<rparr> # parse_splits (re_split [] rest) 0)
            = ''%{'' @ name @ ''}'' @ rest"
      using ih by (simp add: render_def)
    then show ?thesis
      unfolding parse_re_split_match[OF m] render_literal_part
      using match_expansion_Some(1)[OF m] by simp
  qed
qed

lemma parse_re_split_induct [case_names Nil Match Skip]:
  assumes "\<And>lit. P lit [] (literal_part lit)"
    and "\<And>lit c cs name rest.
           match_expansion (c # cs) = Some (name, rest) \<Longrightarrow>
           P [] rest (parse_splits (re_split [] rest) 0) \<Longrightarrow>
           P lit (c # cs)
             (literal_part lit @ \<lparr>part_text = name, is_variable = True\<rparr>
                # parse_splits (re_split [] rest) 0)"
    and "\<And>lit c cs.
           match_expansion (c # cs) = None \<Longrightarrow>
           P (lit @ [c]) cs (parse_splits (re_split (lit @ [c]) cs) 0) \<Longrightarrow>
           P lit (c # cs) (parse_splits (re_split (lit @ [c]) cs) 0)"
  shows "P lit s (parse_splits (re_split lit s) 0)"
proof (induction lit s rule: re_split.induct)
  case (1 lit)
  show ?case unfolding parse_re_split_Nil by (rule assms(1))
next
  case (2 lit c cs)
  show ?case
  proof (cases "match_expansion (c # cs)")
    case None
    show ?thesis
      unfolding parse_re_split_skip[OF None]
      by (rule assms(3)[OF None 2(1)[OF None]])
  next
    case (Some nr)
    obtain name rest where nr: "nr = (name, rest)" by (cases nr)
    from Some nr have m: "match_expansion (c # cs) = Some (name, rest)" by simp
    show ?thesis
      unfolding parse_re_split_match[OF m]
      by (rule assms(2)[OF m 2(2)[OF Some nr[symmetric]]])
  qed
qed

lemma parts_nonempty:
  "\<forall>p \<in> set (parse_splits (re_split lit s) 0). part_text p \<noteq> []"
proof (induction lit s rule: parse_re_split_induct)
  case (Nil lit)
  show ?case by (simp add: literal_part_def)
next
  case (Match lit c cs name rest)
  from match_expansion_Some(2)[OF Match(1)] have "name \<noteq> []" by (auto simp: valid_name_def)
  with Match(2) show ?case by (simp add: literal_part_def)
next
  case (Skip lit c cs)
  from Skip(2) show ?case .
qed

lemma variable_parts_valid:
  "\<forall>p \<in> set (parse_splits (re_split lit s) 0). is_variable p \<longrightarrow> valid_name (part_text p)"
proof (induction lit s rule: parse_re_split_induct)
  case (Nil lit)
  show ?case by (simp add: literal_part_def)
next
  case (Match lit c cs name rest)
  with match_expansion_Some(2)[OF Match(1)] show ?case by (simp add: literal_part_def)
next
  case (Skip lit c cs)
  from Skip(2) show ?case .
qed

lemma adjacent_literals_variable:
  "is_variable p \<Longrightarrow> adjacent_literals (p # ps) = adjacent_literals ps"
  by (cases ps) simp_all

lemma no_adjacent_literals: "\<not> adjacent_literals (parse_splits (re_split lit s) 0)"
proof (induction lit s rule: parse_re_split_induct)
  case (Nil lit)
  show ?case by (simp add: literal_part_def)
next
  case (Match lit c cs name rest)
  then show ?case by (simp add: literal_part_def adjacent_literals_variable)
next
  case (Skip lit c cs)
  from Skip(2) show ?case .
qed

lemma search_expansion_iff:
  "search_expansion s \<longleftrightarrow> (\<exists>k<length s. match_expansion (drop k s) \<noteq> None)"
proof (induction s)
  case Nil
  show ?case by simp
next
  case (Cons c s)
  have "(\<exists>k<length (c # s). match_expansion (drop k (c # s)) \<noteq> None)
        \<longleftrightarrow> match_expansion (c # s) \<noteq> None \<or> (\<exists>k<length s. match_expansion (drop k s) \<noteq> None)"
    by (auto simp: less_Suc_eq_0_disj)
  with Cons show ?case by simp
qed

lemma literal_parts_no_match:
  "(\<forall>k<length lit. match_expansion (drop k lit @ s) = None) \<longrightarrow>
   (\<forall>p \<in> set (parse_splits (re_split lit s) 0).
      \<not> is_variable p \<longrightarrow> \<not> search_expansion (part_text p))"
proof (induction lit s rule: parse_re_split_induct)
  case (Nil lit)
  show ?case by (auto simp: literal_part_def search_expansion_iff)
next
  case (Match lit c cs name rest)
  show ?case
  proof
    assume inv: "\<forall>k<length lit. match_expansion (drop k lit @ c # cs) = None"
    have "\<not> search_expansion lit"
    proof
      assume "search_expansion lit"
      then obtain k n r where k: "k < length lit" and m: "match_expansion (drop k lit) = Some (n, r)"
        by (auto simp: search_expansion_iff)
      from match_expansion_extend[OF m, of "c # cs"] inv k show False by simp
    qed
    with Match(2) show "\<forall>p \<in> set (literal_part lit @ \<lparr>part_text = name, is_variable = True\<rparr>
                # parse_splits (re_split [] rest) 0).
      \<not> is_variable p \<longrightarrow> \<not> search_expansion (part_text p)"
      by (auto simp: literal_part_def)
  qed
next
  case (Skip lit c cs)
  show ?case
  proof
    assume inv: "\<forall>k<length lit. match_expansion (drop k lit @ c # cs) = None"
    have "\<forall>k<length (lit @ [c]). match_expansion (drop k (lit @ [c]) @ cs) = None"
    proof (intro allI impI)
      fix k assume "k < length (lit @ [c])"
      then consider "k < length lit" | "k = length lit" by fastforce
      then show "match_expansion (drop k (lit @ [c]) @ cs) = None"
      proof cases
        case 1
        with inv show ?thesis by simp
      next
        case 2
        with Skip(1) show ?thesis by simp
      qed
    qed
    with Skip(2) show "\<forall>p \<in> set (parse_splits (re_split (lit @ [c]) cs) 0).
      \<not> is_variable p \<longrightarrow> \<not> search_expansion (part_text p)"
      by blast
  qed
qed

lemma re_split_no_match: "\<not> search_expansion s \<Longrightarrow> re_split lit s = [lit @ s]"
proof (induction s arbitrary: lit)
  case Nil
  show ?case by simp
next
  case (Cons c s)
  from Cons.prems have m: "match_expansion (c # s) = None" and n: "\<not> search_expansion s"
    by (cases "match_expansion (c # s)"; simp)+
  from Cons.IH[OF n, of "lit @ [c]"] m show ?case by simp
qed

lemma parse_string_no_match: "\<not> search_expansion s \<Longrightarrow> parse_string s = literal_part s"
  by (simp add: parse_string_def re_split_no_match literal_part_def)

lemma ValueClass_init_no_match:
  "\<not> search_expansion s \<Longrightarrow>
   ValueClass_init s = \<lparr>variable_names = [], parts = literal_part s\<rparr>"
  by (simp add: ValueClass_init_def parse_string_no_match literal_part_def)

section \<open>Values without references, and construction\<close>

lemma Variables_resolve_literal:
  assumes "\<not> search_expansion raw" and "map_of vs n = Some (Value_init raw)"
  shows "Variables_resolve vs n
         = (Inr (Some raw), AList.update n ((Value_init raw)\<lparr>resolved := Some raw\<rparr>) vs)"
proof -
  have vc: "value_class (Value_init raw) = \<lparr>variable_names = [], parts = literal_part raw\<rparr>"
    and un: "resolved (Value_init raw) = None"
    using assms(1) by (simp_all add: Value_init_def ValueClass_init_no_match)
  have rp: "Value_resolve vs (Value_init raw)
            = Inr (raw, (Value_init raw)\<lparr>resolved := Some raw\<rparr>)"
    by (simp add: Value_resolve_def un vc literal_part_def join_def)
  have "while_step vs True [ResolutionStep None [n] None] [] = Next [n]"
    using assms(2) by (simp add: check_circular_def get_checked_value_def un vc dependencies_def)
  then show ?thesis
    using assms(2) rp by (simp add: Variables_resolve_def)
qed

lemma map_of_fold_update:
  "distinct (map fst node) \<Longrightarrow>
   map_of (fold (\<lambda>(key, value_node) ret. AList.update key (f value_node) ret) node acc) k
   = (case map_of node k of Some t \<Rightarrow> Some (f t) | None \<Rightarrow> map_of acc k)"
proof (induction node arbitrary: acc)
  case Nil
  show ?case by simp
next
  case (Cons kv node)
  obtain k' t' where kv: "kv = (k', t')" by (cases kv)
  from Cons.prems kv have d: "distinct (map fst node)" and nk: "map_of node k' = None"
    by (auto simp: map_of_eq_None_iff)
  show ?case
    using Cons.IH[OF d, of "AList.update k' (f t') acc"] kv nk
    by (auto simp: update_conv' split: option.splits)
qed

lemma map_of_init_values:
  "distinct (map fst node) \<Longrightarrow>
   map_of (init_values node) k = map_option Value_init (map_of node k)"
  by (simp add: init_values_def map_of_fold_update split: option.splits)

section \<open>The first loop: collecting the dependencies\<close>

lemma lineage_member: "c \<in> set (lineage p) \<Longrightarrow> p \<noteq> None"
  by (cases p) auto

lemma referees_member: "r \<in> set (referees p) \<Longrightarrow> p \<noteq> None"
  by (cases p) auto

lemma on_path_varnames:
  "on_path vs name s \<Longrightarrow> y \<in> set (varnames s) \<Longrightarrow> (name, y) \<in> (dep vs)\<^sup>*"
proof (induction vs name s arbitrary: y rule: on_path.induct)
  case (1 vs name r ns)
  then show ?case by auto
next
  case (2 vs name r ns q)
  then obtain n where n: "n \<in> set (varnames q)" and ns: "set ns \<subseteq> deps_of vs n"
    and q: "on_path vs name q" by auto
  from 2(1)[OF q n] have "(name, n) \<in> (dep vs)\<^sup>*" .
  moreover from 2(3) ns have "(n, y) \<in> dep vs" by (auto simp: dep_def)
  ultimately show ?case by (rule rtrancl_into_rtrancl)
qed

lemma on_path_referee:
  "on_path vs name s \<Longrightarrow> referee s = Some n \<Longrightarrow>
   (name, n) \<in> (dep vs)\<^sup>* \<and> map_of vs n \<noteq> None \<and> parent s \<noteq> None"
  by (cases s; cases "parent s") (auto dest: on_path_varnames)

lemma on_path_ancestor:
  "on_path vs name s \<Longrightarrow> referee s = Some n \<Longrightarrow> Some m \<in> set (referees (parent s)) \<Longrightarrow>
   (m, n) \<in> (dep vs)\<^sup>+"
proof (induction vs name s arbitrary: n rule: on_path.induct)
  case (1 vs name r ns)
  then show ?case by simp
next
  case (2 vs name r ns q)
  from 2(2,3) have n: "n \<in> set (varnames q)" and q: "on_path vs name q" by auto
  obtain rq nsq pq where qq: "q = ResolutionStep rq nsq pq" by (cases q)
  from 2(4) qq have "rq = Some m \<or> Some m \<in> set (referees pq)" by auto
  then have "\<exists>m'. rq = Some m' \<and> pq \<noteq> None"
  proof
    assume "rq = Some m"
    with q qq show ?thesis by (cases pq) auto
  next
    assume "Some m \<in> set (referees pq)"
    then have "pq \<noteq> None" by (rule referees_member)
    with q qq show ?thesis by auto
  qed
  then obtain m' where m': "rq = Some m'" and pq: "pq \<noteq> None" by blast
  from q qq m' pq n have "n \<in> deps_of vs m'" by auto
  then have e: "(m', n) \<in> dep vs" by (simp add: dep_def)
  from 2(4) qq m' consider (same) "m = m'" | (above) "Some m \<in> set (referees (parent q))"
    by auto
  then show ?case
  proof cases
    case same
    with e show ?thesis by blast
  next
    case above
    from qq m' have "referee q = Some m'" by simp
    from "2.IH"[OF q this above] have "(m, m') \<in> (dep vs)\<^sup>+" .
    from this e show ?thesis by (rule trancl.trancl_into_trancl)
  qed
qed

lemma lineage_depth:
  "c \<in> set (lineage p) \<Longrightarrow> length (lineage (Some c)) \<le> length (lineage p)"
  by (induction p rule: lineage.induct) auto

lemma lineage_proper: "c \<in> set (lineage p) \<Longrightarrow> c \<noteq> ResolutionStep r ns p"
  using lineage_depth[of "ResolutionStep r ns p" p] by auto

lemma referees_lineage: "referees p = map referee (lineage p)"
  by (induction p rule: lineage.induct) auto

lemma check_ancestors_Inl:
  "check_ancestors vs self p = Inl e \<Longrightarrow>
   \<exists>c \<in> set (lineage p). referee c = referee self \<and> e = raise_circular_reference_error vs self c"
  by (induction vs self p rule: check_ancestors.induct) (auto split: if_splits)

lemma error_lines_None:
  "on_path vs name s \<Longrightarrow> c \<in> set (lineage (parent s)) \<Longrightarrow> referee c \<noteq> None \<Longrightarrow>
   error_lines vs self c (Some s) = None"
proof (induction vs name s rule: on_path.induct)
  case (1 vs name r ns)
  then show ?case by simp
next
  case (2 vs name r ns q)
  from 2(2) have q: "on_path vs name q" by auto
  obtain rq nsq pq where qq: "q = ResolutionStep rq nsq pq" by (cases q)
  from 2(3) have ne: "ResolutionStep r ns (Some q) \<noteq> c"
    using lineage_proper[of c "Some q" r ns] by auto
  from 2(3) qq consider (same) "c = q" | (above) "c \<in> set (lineage (parent q))" by auto
  then show ?case
  proof cases
    case same
    with 2(4) obtain m where m: "referee q = Some m" by auto
    from on_path_referee[OF q m] have "map_of vs m \<noteq> None" by simp
    with ne m same qq show ?thesis by auto
  next
    case above
    with qq have "pq \<noteq> None" by (auto dest: lineage_member)
    with q qq obtain m where m: "referee q = Some m" and d: "map_of vs m \<noteq> None" by auto
    from "2.IH"[OF q above "2.prems"(3)] have "error_lines vs self c (Some q) = None" .
    with ne m d show ?thesis by auto
  qed
qed

lemma check_circular_cases:
  assumes "on_path vs name s"
  shows "(check_circular vs s = Inr () \<and> referee s \<notin> set (referees (parent s)))
       \<or> (check_circular vs s = Inl (LoadError CIRCULAR_REFERENCE_VARIABLE)
          \<and> (\<exists>n. referee s = Some n \<and> (name, n) \<in> (dep vs)\<^sup>* \<and> (n, n) \<in> (dep vs)\<^sup>+))"
proof (cases "check_circular vs s")
  case (Inr u)
  then show ?thesis by (simp add: check_circular_def check_ancestors_Inr)
next
  case (Inl e)
  then obtain c where c: "c \<in> set (lineage (parent s))" and rc: "referee c = referee s"
    and e: "e = raise_circular_reference_error vs s c"
    unfolding check_circular_def by (blast dest: check_ancestors_Inl)
  from c have "parent s \<noteq> None" by (rule lineage_member)
  with assms obtain n where n: "referee s = Some n" by (cases s) auto
  from error_lines_None[OF assms c] rc n have "error_lines vs s c (Some s) = None" by simp
  with e have e': "e = LoadError CIRCULAR_REFERENCE_VARIABLE"
    by (simp add: raise_circular_reference_error_def)
  from c rc n have "Some n \<in> set (referees (parent s))"
    by (force simp: referees_lineage)
  from on_path_ancestor[OF assms n this] on_path_referee[OF assms n] Inl e' n
  show ?thesis by simp
qed

lemma settled_append: "settled vs post z \<Longrightarrow> settled vs (post @ ys) z"
  by (auto simp: settled_def)

lemma closed_upto_append:
  "closed_upto vs P d \<Longrightarrow> map_of vs y \<noteq> None \<Longrightarrow> deps_of vs y \<subseteq> P' \<Longrightarrow>
   P \<subseteq> insert y P' \<Longrightarrow> closed_upto vs P' (d @ [y])"
proof (induction d)
  case Nil
  then show ?case by auto
next
  case (Cons x post)
  have "\<forall>z \<in> deps_of vs x. settled vs (post @ [y]) z \<or> z \<in> P'"
  proof
    fix z assume "z \<in> deps_of vs x"
    with Cons.prems(1) have "settled vs post z \<or> z \<in> P" by simp
    then show "settled vs (post @ [y]) z \<or> z \<in> P'"
    proof
      assume "settled vs post z"
      then show ?thesis by (simp add: settled_append)
    next
      assume "z \<in> P"
      with Cons.prems(4) have "z = y \<or> z \<in> P'" by auto
      with Cons.prems(2) show ?thesis by (auto simp: settled_def)
    qed
  qed
  with Cons show ?case by simp
qed

lemma closed_upto_resolved:
  "closed_upto vs P d \<Longrightarrow> map_of vs y = Some v \<Longrightarrow> resolved v \<noteq> None \<Longrightarrow>
   P \<subseteq> insert y P' \<Longrightarrow> closed_upto vs P' d"
proof (induction d)
  case Nil
  then show ?case by simp
next
  case (Cons x post)
  have "\<forall>z \<in> deps_of vs x. settled vs post z \<or> z \<in> P'"
  proof
    fix z assume "z \<in> deps_of vs x"
    with Cons.prems(1) have "settled vs post z \<or> z \<in> P" by simp
    then show "settled vs post z \<or> z \<in> P'"
      using Cons.prems(2,3,4) by (auto simp: settled_def)
  qed
  with Cons show ?case by simp
qed

lemma for_varnames_invariant:
  assumes "on_path vs name this" and "set names \<subseteq> set (varnames this)"
    and "\<forall>s \<in> set st. on_path vs name s"
  shows "case for_varnames vs this names (f, st, d) of
           Raise e \<Rightarrow> e = LoadError UNRESOLVED_VARIABLE \<and> (\<exists>y \<in> set names. map_of vs y = None)
         | Return s \<Rightarrow> f
         | Next (f', st', d') \<Rightarrow>
             (\<forall>s \<in> set st'. on_path vs name s) \<and> (\<exists>d''. d' = d @ d'') \<and> (\<not> f \<longrightarrow> \<not> f')
             \<and> (closed_upto vs (set names \<union> pending st) d \<longrightarrow> closed_upto vs (pending st') d')"
  using assms
proof (induction names arbitrary: f st d)
  case Nil
  then show ?case by simp
next
  case (Cons y names)
  from Cons.prems(2) have sub: "set names \<subseteq> set (varnames this)"
    and y: "y \<in> set (varnames this)" by auto
  show ?case
  proof (cases "map_of vs y")
    case None
    then show ?thesis by (simp add: get_checked_value_def)
  next
    case (Some v)
    show ?thesis
    proof (cases "resolved v")
      case None
      let ?child = "ResolutionStep (Some y) (dependencies v) (Some this)"
      let ?st1 = "if dependencies v \<noteq> [] then ?child # st else st"
      have dv: "set (dependencies v) = deps_of vs y"
        using Some None by (simp add: dependencies_def deps_of_def)
      have "on_path vs name ?child"
        using Cons.prems(1) y Some dv by simp
      with Cons.prems(3) have stk: "\<forall>s \<in> set ?st1. on_path vs name s" by simp
      have pend: "pending ?st1 = deps_of vs y \<union> pending st"
        using dv by (auto simp: pending_def)
      have step: "for_varnames vs this (y # names) (f, st, d)
                  = for_varnames vs this names (False, ?st1, d @ [y])"
        using Some None by (simp add: get_checked_value_def)
      have cl: "closed_upto vs (set names \<union> pending ?st1) (d @ [y])"
        if "closed_upto vs (set (y # names) \<union> pending st) d"
        using that
      proof (rule closed_upto_append)
        show "map_of vs y \<noteq> None" using Some by simp
        show "deps_of vs y \<subseteq> set names \<union> pending ?st1" using pend by auto
        show "set (y # names) \<union> pending st \<subseteq> insert y (set names \<union> pending ?st1)"
          using pend by auto
      qed
      from Cons.IH[OF Cons.prems(1) sub stk, of False "d @ [y]"] cl
      show ?thesis unfolding step
        by (auto split: flow.splits)
    next
      case (Some s)
      note res = Some
      show ?thesis
      proof (cases f)
        case True
        with \<open>map_of vs y = Some v\<close> res show ?thesis
          by (simp add: get_checked_value_def Value_resolve_memo)
      next
        case False
        have step: "for_varnames vs this (y # names) (f, st, d)
                    = for_varnames vs this names (False, st, d)"
          using \<open>map_of vs y = Some v\<close> res False by (simp add: get_checked_value_def)
        have cl: "closed_upto vs (set names \<union> pending st) d"
          if "closed_upto vs (set (y # names) \<union> pending st) d"
          using that \<open>map_of vs y = Some v\<close>
        proof (rule closed_upto_resolved)
          show "resolved v \<noteq> None" using res by simp
          show "set (y # names) \<union> pending st \<subseteq> insert y (set names \<union> pending st)" by auto
        qed
        from Cons.IH[OF Cons.prems(1) sub Cons.prems(3), of False d] cl
        show ?thesis unfolding step
          by (auto split: flow.splits)
      qed
    qed
  qed
qed

lemma while_step_invariant:
  assumes "\<forall>s \<in> set st. on_path vs name s"
  shows "case while_step vs f st d of
           Raise e \<Rightarrow>
             (e = LoadError UNRESOLVED_VARIABLE
                \<and> (\<exists>y. (name, y) \<in> (dep vs)\<^sup>* \<and> map_of vs y = None))
             \<or> (e = LoadError CIRCULAR_REFERENCE_VARIABLE
                \<and> (\<exists>y. (name, y) \<in> (dep vs)\<^sup>* \<and> (y, y) \<in> (dep vs)\<^sup>+))
         | Return s \<Rightarrow> f
         | Next D \<Rightarrow>
             (\<exists>D'. D = d @ D') \<and> (closed_upto vs (pending st) d \<longrightarrow> closed_upto vs {} D)"
  using assms
proof (induction vs f st d rule: while_step.induct)
  case (1 vs f d)
  then show ?case by (simp add: pending_def)
next
  case (2 vs f top st d)
  from "2.prems" have top: "on_path vs name top" and stk: "\<forall>s \<in> set st. on_path vs name s"
    by simp_all
  from check_circular_cases[OF top] show ?case
  proof
    assume ok: "check_circular vs top = Inr () \<and> referee top \<notin> set (referees (parent top))"
    note fv = for_varnames_invariant[OF top subset_refl stk, of f d]
    show ?thesis
    proof (cases "for_varnames vs top (varnames top) (f, st, d)")
      case (Raise e)
      with fv obtain y where "e = LoadError UNRESOLVED_VARIABLE" and "y \<in> set (varnames top)"
        and "map_of vs y = None" by auto
      with on_path_varnames[OF top] Raise ok show ?thesis by auto
    next
      case (Return s)
      with fv ok show ?thesis by simp
    next
      case (Next x)
      obtain f' st' d' where x: "x = (f', st', d')" by (cases x)
      from fv Next x have stk': "\<forall>s \<in> set st'. on_path vs name s"
        and pre: "\<exists>d''. d' = d @ d''" and ff: "\<not> f \<longrightarrow> \<not> f'"
        and cl: "closed_upto vs (set (varnames top) \<union> pending st) d
                 \<longrightarrow> closed_upto vs (pending st') d'"
        by simp_all
      have pend: "pending (top # st) = set (varnames top) \<union> pending st"
        by (simp add: pending_def)
      from "2.IH"[OF _ Next x[symmetric] refl stk'] ok
      have ih: "case while_step vs f' st' d' of
           Raise e \<Rightarrow>
             (e = LoadError UNRESOLVED_VARIABLE
                \<and> (\<exists>y. (name, y) \<in> (dep vs)\<^sup>* \<and> map_of vs y = None))
             \<or> (e = LoadError CIRCULAR_REFERENCE_VARIABLE
                \<and> (\<exists>y. (name, y) \<in> (dep vs)\<^sup>* \<and> (y, y) \<in> (dep vs)\<^sup>+))
         | Return s \<Rightarrow> f'
         | Next D \<Rightarrow>
             (\<exists>D'. D = d' @ D') \<and> (closed_upto vs (pending st') d' \<longrightarrow> closed_upto vs {} D)"
        by simp
      have step: "while_step vs f (top # st) d = while_step vs f' st' d'"
        using ok Next x by simp
      show ?thesis unfolding step pend
        using ih pre ff cl by (auto split: flow.splits)
    qed
  next
    assume "check_circular vs top = Inl (LoadError CIRCULAR_REFERENCE_VARIABLE)
          \<and> (\<exists>n. referee top = Some n \<and> (name, n) \<in> (dep vs)\<^sup>* \<and> (n, n) \<in> (dep vs)\<^sup>+)"
    then show ?thesis by auto
  qed
qed

section \<open>The second loop: resolving the collected values\<close>

lemma expands_same_classes:
  assumes "\<forall>n. class_of vs' n = class_of vs n"
  shows "expands vs n s \<Longrightarrow> expands vs' n s"
    and "expands_parts vs ps s \<Longrightarrow> expands_parts vs' ps s"
proof (induction rule: expands_expands_parts.inducts)
  case (expands_name n v s)
  from assms have "class_of vs' n = class_of vs n" by simp
  with expands_name(1) obtain v' where "map_of vs' n = Some v'"
    and "value_class v' = value_class v"
    by (auto simp: class_of_def)
  with expands_name(3) show ?case
    by (auto intro: expands_expands_parts.expands_name)
next
  case expands_end
  show ?case by (rule expands_expands_parts.expands_end)
next
  case (expands_literal p ps s)
  then show ?case by (auto intro: expands_expands_parts.expands_literal)
next
  case (expands_variable p e ps s)
  then show ?case by (auto intro: expands_expands_parts.expands_variable)
qed

lemma extends_refl: "extends vs vs"
  by (simp add: extends_def)

lemma extends_trans: "extends a b \<Longrightarrow> extends b c \<Longrightarrow> extends a c"
  by (simp add: extends_def)

lemma while_deps_append:
  "while_deps vs (a @ b) rv =
     (case while_deps vs a rv of
        (Inl e, vs') \<Rightarrow> (Inl e, vs')
      | (Inr rv', vs') \<Rightarrow> while_deps vs' b rv')"
  by (induction a arbitrary: vs rv) (auto split: option.splits sum.splits prod.splits)

lemma resolve_parts_ok:
  "\<forall>p \<in> set ps. is_variable p \<longrightarrow> memo vs (part_text p) \<noteq> None \<Longrightarrow>
   resolve_parts vs ps = Inr (map (part_value vs) ps)"
  by (induction ps) (auto simp: part_value_def memo_def split: option.splits)

lemma part_values_set:
  "\<forall>p \<in> set ps. is_variable p \<longrightarrow> memo vs (part_text p) \<noteq> None \<Longrightarrow>
   None \<notin> set (map (part_value vs) ps)"
  by (auto simp: part_value_def)

lemma part_values_expand:
  "memo_ok vs \<Longrightarrow> \<forall>p \<in> set ps. is_variable p \<longrightarrow> memo vs (part_text p) \<noteq> None \<Longrightarrow>
   expands_parts vs ps (concat (map the (map (part_value vs) ps)))"
proof (induction ps)
  case Nil
  show ?case by (simp add: expands_end)
next
  case (Cons p ps)
  from Cons have ih: "expands_parts vs ps (concat (map the (map (part_value vs) ps)))" by simp
  show ?case
  proof (cases "is_variable p")
    case False
    then have "the (part_value vs p) = part_text p" by (simp add: part_value_def)
    with expands_literal[OF False ih] show ?thesis by simp
  next
    case True
    with Cons.prems(2) obtain v t where "map_of vs (part_text p) = Some v" and "resolved v = Some t"
      by (auto simp: memo_def split: option.splits)
    with Cons.prems(1) have e: "expands vs (part_text p) t" and "memo vs (part_text p) = Some t"
      by (auto simp: memo_ok_def memo_def)
    with True have "the (part_value vs p) = t" by (simp add: part_value_def)
    with expands_variable[OF True e ih] show ?thesis by simp
  qed
qed

lemma Value_resolve_ok:
  assumes "resolved v = None"
    and "\<forall>p \<in> set (parts (value_class v)). is_variable p \<longrightarrow> memo vs (part_text p) \<noteq> None"
  shows "Value_resolve vs v
         = Inr (concat (map the (map (part_value vs) (parts (value_class v)))),
                v\<lparr>resolved := Some (concat (map the (map (part_value vs) (parts (value_class v)))))\<rparr>)"
  using assms(1) resolve_parts_ok[OF assms(2)] part_values_set[OF assms(2)]
  by (simp add: Value_resolve_def join_def)

lemma Value_resolve_total:
  assumes "\<forall>p \<in> set (parts (value_class v)). is_variable p \<longrightarrow> memo vs (part_text p) \<noteq> None"
  shows "\<exists>s. Value_resolve vs v = Inr (s, v\<lparr>resolved := Some s\<rparr>)
             \<and> (\<forall>t. resolved v = Some t \<longrightarrow> s = t)
             \<and> (resolved v = None \<longrightarrow>
                  s = concat (map the (map (part_value vs) (parts (value_class v)))))"
proof (cases "resolved v")
  case None
  with Value_resolve_ok[OF None assms] show ?thesis by simp
next
  case (Some t)
  then have "v\<lparr>resolved := Some t\<rparr> = v" by simp
  with Some show ?thesis by (simp add: Value_resolve_memo)
qed

lemma while_deps_single:
  assumes v1: "map_of vs1 x = Some v1"
    and deps: "\<forall>p \<in> set (parts (value_class v1)). is_variable p \<longrightarrow> memo vs1 (part_text p) \<noteq> None"
  shows "\<exists>s vs'. while_deps vs1 [x] r1 = (Inr (Some s), vs') \<and> extends vs1 vs'
            \<and> memo vs' x = Some s \<and> (memo_ok vs1 \<longrightarrow> memo_ok vs')"
proof -
  from Value_resolve_total[OF deps] obtain s where
    r: "Value_resolve vs1 v1 = Inr (s, v1\<lparr>resolved := Some s\<rparr>)"
    and old: "\<forall>t. resolved v1 = Some t \<longrightarrow> s = t"
    and new: "resolved v1 = None \<longrightarrow>
                  s = concat (map the (map (part_value vs1) (parts (value_class v1))))"
    by (elim exE conjE)
  let ?v' = "v1\<lparr>resolved := Some s\<rparr>"
  let ?vs' = "AList.update x ?v' vs1"
  have m: "map_of ?vs' = (map_of vs1)(x \<mapsto> ?v')" by (rule update_conv')
  have w: "while_deps vs1 [x] r1 = (Inr (Some s), ?vs')"
    using v1 r by simp
  have cls: "\<forall>n. class_of ?vs' n = class_of vs1 n"
    using v1 by (simp add: class_of_def m)
  have mem: "\<And>n. memo ?vs' n = (if n = x then Some s else memo vs1 n)"
    by (simp add: memo_def m)
  have ext: "extends vs1 ?vs'"
    unfolding extends_def
  proof (intro conjI allI impI)
    fix n show "class_of ?vs' n = class_of vs1 n" using cls by simp
  next
    fix n t assume a: "memo vs1 n = Some t"
    show "memo ?vs' n = Some t"
    proof (cases "n = x")
      case True
      with a v1 have "resolved v1 = Some t" by (simp add: memo_def)
      with old have "s = t" by simp
      with mem[of n] True show ?thesis by simp
    next
      case False
      with mem[of n] a show ?thesis by simp
    qed
  qed
  have ok: "memo_ok ?vs'" if mo: "memo_ok vs1"
    unfolding memo_ok_def
  proof (intro allI impI)
    fix n v t assume nv: "map_of ?vs' n = Some v" and rt: "resolved v = Some t"
    have "expands vs1 n t"
    proof (cases "n = x")
      case False
      with nv have "map_of vs1 n = Some v" by (simp add: m)
      from mo[unfolded memo_ok_def, rule_format, OF this rt] show ?thesis .
    next
      case True
      with nv rt have ts: "t = s" by (auto simp: m)
      show ?thesis
      proof (cases "resolved v1")
        case (Some u)
        with old have "resolved v1 = Some s" by simp
        from mo[unfolded memo_ok_def, rule_format, OF v1 this] ts True show ?thesis by simp
      next
        case None
        with new have "s = concat (map the (map (part_value vs1) (parts (value_class v1))))"
          by simp
        with part_values_expand[OF mo deps]
        have "expands_parts vs1 (parts (value_class v1)) s" by simp
        with v1 have "expands vs1 x s" by (rule expands_name)
        with ts True show ?thesis by simp
      qed
    qed
    then show "expands ?vs' n t"
      using cls by (rule expands_same_classes(1)[rotated])
  qed
  from mem[of x] have "memo ?vs' x = Some s" by simp
  with w ext ok show ?thesis by blast
qed

lemma while_deps_closed:
  assumes wf: "\<forall>n v. map_of vs n = Some v \<longrightarrow> wf_class (value_class v)"
    and cl: "closed_upto vs {} D"
  shows "\<exists>r vs'. while_deps vs (rev D) rv = (Inr r, vs') \<and> extends vs vs'
            \<and> (\<forall>y \<in> set D. memo vs' y \<noteq> None)
            \<and> r = (if D = [] then rv else memo vs' (hd D))
            \<and> (memo_ok vs \<longrightarrow> memo_ok vs')"
  using cl
proof (induction D)
  case Nil
  show ?case by (simp add: extends_refl)
next
  case (Cons x post)
  from Cons.prems have xdef: "map_of vs x \<noteq> None"
    and st: "\<forall>y \<in> deps_of vs x. settled vs post y"
    and clp: "closed_upto vs {} post" by simp_all
  from Cons.IH[OF clp] obtain r1 vs1 where
    w1: "while_deps vs (rev post) rv = (Inr r1, vs1)" and ex1: "extends vs vs1"
    and all1: "\<forall>y \<in> set post. memo vs1 y \<noteq> None"
    and mo1: "memo_ok vs \<longrightarrow> memo_ok vs1" by blast
  from xdef obtain v where v: "map_of vs x = Some v" by auto
  from ex1 have "class_of vs1 x = class_of vs x" by (simp add: extends_def)
  with v obtain v1 where v1: "map_of vs1 x = Some v1" and c1: "value_class v1 = value_class v"
    by (auto simp: class_of_def)
  from wf v have wfc: "wf_class (value_class v)" by blast
  have deps: "\<forall>p \<in> set (parts (value_class v1)).
                is_variable p \<longrightarrow> memo vs1 (part_text p) \<noteq> None"
  proof (intro ballI impI)
    fix p assume "p \<in> set (parts (value_class v1))" and "is_variable p"
    with wfc c1 v have "part_text p \<in> deps_of vs x"
      by (auto simp: wf_class_def deps_of_def)
    with st have "settled vs post (part_text p)" by blast
    then consider "memo vs (part_text p) \<noteq> None" | "part_text p \<in> set post"
      by (auto simp: settled_def memo_def)
    then show "memo vs1 (part_text p) \<noteq> None"
    proof cases
      case 1
      with ex1 show ?thesis by (auto simp: extends_def)
    next
      case 2
      with all1 show ?thesis by blast
    qed
  qed
  from while_deps_single[OF v1 deps, of r1] obtain s vs' where
    w2: "while_deps vs1 [x] r1 = (Inr (Some s), vs')" and ex2: "extends vs1 vs'"
    and mx: "memo vs' x = Some s" and mo2: "memo_ok vs1 \<longrightarrow> memo_ok vs'" by blast
  have w: "while_deps vs (rev (x # post)) rv = (Inr (Some s), vs')"
    using w1 w2 by (simp add: while_deps_append)
  have al: "\<forall>y \<in> set (x # post). memo vs' y \<noteq> None"
  proof
    fix y assume "y \<in> set (x # post)"
    then consider "y = x" | "y \<in> set post" by auto
    then show "memo vs' y \<noteq> None"
    proof cases
      case 1
      with mx show ?thesis by simp
    next
      case 2
      with all1 obtain t where "memo vs1 y = Some t" by auto
      with ex2 have "memo vs' y = Some t" by (simp add: extends_def)
      then show ?thesis by simp
    qed
  qed
  have r: "Some s = (if x # post = [] then rv else memo vs' (hd (x # post)))"
    using mx by simp
  from mo1 mo2 have mo: "memo_ok vs \<longrightarrow> memo_ok vs'" by blast
  from w extends_trans[OF ex1 ex2] al r mo show ?case by blast
qed

section \<open>The outcome of \<^verbatim>\<open>_resolve\<close>\<close>

lemma wf_table_map_of:
  "wf_table vs \<Longrightarrow> map_of vs n = Some v \<Longrightarrow> wf_class (value_class v)"
proof -
  assume wf: "wf_table vs" and "map_of vs n = Some v"
  then have "(n, v) \<in> set vs" by (simp add: map_of_SomeD)
  with wf have "wf_class (value_class (snd (n, v)))"
    unfolding wf_table_def list_all_iff by blast
  then show ?thesis by simp
qed

lemma Variables_resolve_undefined:
  "map_of vs name = None \<Longrightarrow>
   Variables_resolve vs name = (Inl (LoadError UNRESOLVED_VARIABLE), vs)"
  by (simp add: Variables_resolve_def check_circular_def get_checked_value_def)

lemma Variables_resolve_unresolved:
  "map_of vs name = Some v \<Longrightarrow> resolved v = None \<Longrightarrow>
   Variables_resolve vs name =
     (case while_step vs False (first_stack name v) [name] of
        Raise e \<Rightarrow> (Inl e, vs)
      | Return s \<Rightarrow> (Inr (Some s), vs)
      | Next deps \<Rightarrow> while_deps vs (rev deps) None)"
  by (simp add: Variables_resolve_def check_circular_def get_checked_value_def first_stack_def)

lemma Variables_resolve_outcome:
  assumes wf: "wf_table vs"
  shows "(Variables_resolve vs name = (Inl (LoadError UNRESOLVED_VARIABLE), vs)
            \<and> (\<exists>y. (name, y) \<in> (dep vs)\<^sup>* \<and> map_of vs y = None))
       \<or> (Variables_resolve vs name = (Inl (LoadError CIRCULAR_REFERENCE_VARIABLE), vs)
            \<and> (\<exists>y. (name, y) \<in> (dep vs)\<^sup>* \<and> (y, y) \<in> (dep vs)\<^sup>+))
       \<or> (\<exists>s vs'. Variables_resolve vs name = (Inr (Some s), vs') \<and> memo vs' name = Some s
              \<and> extends vs vs' \<and> (memo_ok vs \<longrightarrow> memo_ok vs'))"
proof (cases "map_of vs name")
  case None
  then have "(name, name) \<in> (dep vs)\<^sup>* \<and> map_of vs name = None" by simp
  with Variables_resolve_undefined[OF None] show ?thesis by blast
next
  case (Some v)
  show ?thesis
  proof (cases "resolved v")
    case (Some s)
    from Variables_resolve_memo[OF \<open>map_of vs name = Some v\<close> Some]
    have "Variables_resolve vs name = (Inr (Some s), vs)" .
    moreover have "memo vs name = Some s"
      using \<open>map_of vs name = Some v\<close> Some by (simp add: memo_def)
    ultimately show ?thesis using extends_refl[of vs] by blast
  next
    case None
    note v = \<open>map_of vs name = Some v\<close>
    let ?st = "first_stack name v"
    have dv: "set (dependencies v) = deps_of vs name"
      using v None by (simp add: dependencies_def deps_of_def)
    have stk: "\<forall>s \<in> set ?st. on_path vs name s"
      using v dv by (simp add: first_stack_def)
    have "pending ?st = deps_of vs name"
      using dv by (auto simp: first_stack_def pending_def)
    then have cl: "closed_upto vs (pending ?st) [name]"
      using v by simp
    note inv = while_step_invariant[OF stk, of False "[name]"]
    note eq = Variables_resolve_unresolved[OF v None]
    show ?thesis
    proof (cases "while_step vs False ?st [name]")
      case (Raise e)
      with inv eq show ?thesis by auto
    next
      case (Return s)
      with inv show ?thesis by simp
    next
      case (Next D)
      with inv cl obtain D' where D: "D = name # D'" and c: "closed_upto vs {} D" by auto
      from wf have "\<forall>n v. map_of vs n = Some v \<longrightarrow> wf_class (value_class v)"
        by (blast intro: wf_table_map_of)
      from while_deps_closed[OF this c, of None] obtain r vs' where
        w: "while_deps vs (rev D) None = (Inr r, vs')" and ex: "extends vs vs'"
        and al: "\<forall>y \<in> set D. memo vs' y \<noteq> None"
        and r: "r = (if D = [] then None else memo vs' (hd D))"
        and mo: "memo_ok vs \<longrightarrow> memo_ok vs'" by blast
      from al D obtain s where s: "memo vs' name = Some s" by auto
      with r D have "r = Some s" by simp
      with eq Next w have "Variables_resolve vs name = (Inr (Some s), vs')" by simp
      with s ex mo show ?thesis by blast
    qed
  qed
qed

lemma expands_parts_member:
  "expands_parts vs ps s \<Longrightarrow> p \<in> set ps \<Longrightarrow> is_variable p \<Longrightarrow> \<exists>t. expands vs (part_text p) t"
  by (induction ps s rule: expands_expands_parts.inducts(2)[where ?P1.0 = "\<lambda>n s. True"]) auto

lemma expands_dep:
  assumes "wf_table vs" and "expands vs n s" and "(n, y) \<in> dep vs"
  shows "\<exists>t. expands vs y t"
proof -
  from assms(2) obtain v where v: "map_of vs n = Some v"
    and ps: "expands_parts vs (parts (value_class v)) s"
    by (auto elim: expands.cases)
  from assms(3) v have "y \<in> set (variable_names (value_class v))"
    by (simp add: dep_def deps_of_def)
  with wf_table_map_of[OF assms(1) v] obtain p where "p \<in> set (parts (value_class v))"
    and "is_variable p" and "part_text p = y"
    by (auto simp: wf_class_def)
  with expands_parts_member[OF ps] show ?thesis by blast
qed

lemma expands_reachable:
  assumes "wf_table vs" and "expands vs n s"
  shows "(n, y) \<in> (dep vs)\<^sup>* \<Longrightarrow> \<exists>t. expands vs y t"
proof (induction rule: rtrancl_induct)
  case base
  from assms(2) show ?case by blast
next
  case (step y z)
  then obtain t where "expands vs y t" by blast
  from expands_dep[OF assms(1) this step(2)] show ?case .
qed

lemma expands_acyclic:
  assumes wf: "wf_table vs"
  shows "expands vs n s \<Longrightarrow> (n, n) \<notin> (dep vs)\<^sup>+"
    and "expands_parts vs ps s \<Longrightarrow>
         \<forall>p \<in> set ps. is_variable p \<longrightarrow> (part_text p, part_text p) \<notin> (dep vs)\<^sup>+"
proof (induction rule: expands_expands_parts.inducts)
  case (expands_name n v s)
  show ?case
  proof
    assume "(n, n) \<in> (dep vs)\<^sup>+"
    then obtain y where ny: "(n, y) \<in> dep vs" and yn: "(y, n) \<in> (dep vs)\<^sup>*"
      by (blast dest: tranclD)
    from ny expands_name(1) have "y \<in> set (variable_names (value_class v))"
      by (simp add: dep_def deps_of_def)
    with wf_table_map_of[OF wf expands_name(1)] obtain p where
      "p \<in> set (parts (value_class v))" and "is_variable p" and "part_text p = y"
      by (auto simp: wf_class_def)
    with expands_name(3) have "(y, y) \<notin> (dep vs)\<^sup>+" by blast
    moreover from yn ny have "(y, y) \<in> (dep vs)\<^sup>+" by (rule rtrancl_into_trancl1)
    ultimately show False by blast
  qed
next
  case expands_end
  show ?case by simp
next
  case (expands_literal p ps s)
  then show ?case by simp
next
  case (expands_variable p e ps s)
  then show ?case by simp
qed

lemma memo_expands:
  assumes "memo_ok vs'" and "extends vs vs'" and "memo vs' n = Some s"
  shows "expands vs n s"
proof -
  from assms(3) obtain v where "map_of vs' n = Some v" and "resolved v = Some s"
    by (auto simp: memo_def split: option.splits)
  with assms(1) have "expands vs' n s" by (simp add: memo_ok_def)
  moreover from assms(2) have "\<forall>m. class_of vs m = class_of vs' m" by (simp add: extends_def)
  ultimately show ?thesis by (rule expands_same_classes(1)[rotated])
qed

inductive_cases expands_partsE_Nil: "expands_parts vs [] t"
inductive_cases expands_partsE_Cons: "expands_parts vs (p # ps) t"

lemma expands_functional:
  "expands vs n s \<Longrightarrow> expands vs n t \<Longrightarrow> s = t"
  "expands_parts vs ps s \<Longrightarrow> expands_parts vs ps t \<Longrightarrow> s = t"
proof (induction arbitrary: t and t rule: expands_expands_parts.inducts)
  case (expands_name n v s)
  from expands_name(4) obtain v' where "map_of vs n = Some v'"
    and "expands_parts vs (parts (value_class v')) t"
    by (auto elim: expands.cases)
  with expands_name(1) have "expands_parts vs (parts (value_class v)) t" by simp
  then show ?case by (rule expands_name(3))
next
  case expands_end
  then show ?case by (auto elim: expands_partsE_Nil)
next
  case (expands_literal p ps s)
  from expands_literal(4) expands_literal(1) obtain t' where "t = part_text p @ t'"
    and "expands_parts vs ps t'"
    by (auto elim: expands_partsE_Cons)
  with expands_literal(3) show ?case by simp
next
  case (expands_variable p e ps s)
  from expands_variable(6) expands_variable(1) obtain e' t' where "t = e' @ t'"
    and "expands vs (part_text p) e'" and "expands_parts vs ps t'"
    by (auto elim: expands_partsE_Cons)
  with expands_variable(3,5) show ?case by simp
qed

section \<open>The tables that a store can hold\<close>

lemma wf_class_init: "wf_class (ValueClass_init s)"
  by (simp add: wf_class_def ValueClass_init_def Let_def)

lemma set_update_subset: "set (AList.update k v al) \<subseteq> insert (k, v) (set al)"
  by (induction al) auto

lemma entries_update:
  "list_all (\<lambda>kv. P (snd kv)) al \<Longrightarrow> P v \<Longrightarrow> list_all (\<lambda>kv. P (snd kv)) (AList.update k v al)"
  using set_update_subset[of k v al] by (fastforce simp: list_all_iff)

lemma entries_fold_update:
  "list_all (\<lambda>kv. P (snd kv)) acc \<Longrightarrow> (\<And>t. P (f t)) \<Longrightarrow>
   list_all (\<lambda>kv. P (snd kv))
     (fold (\<lambda>(key, value_node) ret. AList.update key (f value_node) ret) node acc)"
proof (induction node arbitrary: acc)
  case Nil
  then show ?case by simp
next
  case (Cons kt node)
  obtain k t where kt: "kt = (k, t)" by (cases kt)
  from Cons.prems have "list_all (\<lambda>kv. P (snd kv)) (AList.update k (f t) acc)"
    by (simp add: entries_update)
  from Cons.IH[OF this Cons.prems(2)] kt show ?case by simp
qed

lemma wf_table_init_values: "wf_table (init_values node)"
  unfolding wf_table_def init_values_def
  by (rule entries_fold_update[where P = "\<lambda>v. wf_class (value_class v)"])
     (simp_all add: Value_init_def wf_class_init)

lemma unresolved_memo_ok:
  "list_all (\<lambda>kv. resolved (snd kv) = None) vs \<Longrightarrow> memo_ok vs"
  unfolding memo_ok_def list_all_iff
proof (intro allI impI)
  fix n v s
  assume a: "\<forall>kv \<in> set vs. resolved (snd kv) = None" and m: "map_of vs n = Some v"
    and r: "resolved v = Some s"
  from m have "(n, v) \<in> set vs" by (rule map_of_SomeD)
  with a have "resolved (snd (n, v)) = None" by blast
  with r show "expands vs n s" by simp
qed

lemma memo_ok_init_values: "memo_ok (init_values node)"
proof (rule unresolved_memo_ok)
  show "list_all (\<lambda>kv. resolved (snd kv) = None) (init_values node)"
    unfolding init_values_def
    by (rule entries_fold_update[where P = "\<lambda>v. resolved v = None"])
       (simp_all add: Value_init_def)
qed

lemma Value_resolve_class:
  "Value_resolve vs v = Inr (s, v') \<Longrightarrow> value_class v' = value_class v"
  by (auto simp: Value_resolve_def split: option.splits sum.splits)

lemma wf_table_update:
  "wf_table vs \<Longrightarrow> wf_class (value_class v) \<Longrightarrow> wf_table (AList.update k v vs)"
  unfolding wf_table_def by (rule entries_update[where P = "\<lambda>v. wf_class (value_class v)"])

lemma while_deps_wf: "wf_table vs \<Longrightarrow> wf_table (snd (while_deps vs ds rv))"
proof (induction ds arbitrary: vs rv)
  case Nil
  then show ?case by simp
next
  case (Cons d ds)
  show ?case
  proof (cases "map_of vs d")
    case None
    with Cons.prems show ?thesis by simp
  next
    case (Some v)
    show ?thesis
    proof (cases "Value_resolve vs v")
      case (Inl e)
      with Some Cons.prems show ?thesis by simp
    next
      case (Inr sv)
      obtain s v' where sv: "sv = (s, v')" by (cases sv)
      from Inr sv have "value_class v' = value_class v" by (simp add: Value_resolve_class)
      with wf_table_map_of[OF Cons.prems Some] have "wf_class (value_class v')" by simp
      with Cons.prems have "wf_table (AList.update d v' vs)" by (rule wf_table_update)
      from Cons.IH[OF this] Some Inr sv show ?thesis by simp
    qed
  qed
qed

lemma Variables_resolve_invariant:
  assumes "wf_table vs" and "memo_ok vs"
  shows "wf_table (snd (Variables_resolve vs name)) \<and> memo_ok (snd (Variables_resolve vs name))"
proof -
  have "wf_table (snd (Variables_resolve vs name))"
    using assms(1) by (auto simp: Variables_resolve_def while_deps_wf split: flow.splits)
  moreover have "memo_ok (snd (Variables_resolve vs name))"
    using Variables_resolve_outcome[OF assms(1), of name] assms(2) by auto
  ultimately show ?thesis ..
qed

lemma resolve_each_invariant:
  "wf_table vs \<Longrightarrow> memo_ok vs \<Longrightarrow>
   wf_table (snd (resolve_each vs names)) \<and> memo_ok (snd (resolve_each vs names))"
proof (induction names arbitrary: vs)
  case Nil
  then show ?case by simp
next
  case (Cons a names)
  from Variables_resolve_invariant[OF Cons.prems, of a]
  have i: "wf_table (snd (Variables_resolve vs a))" "memo_ok (snd (Variables_resolve vs a))"
    by simp_all
  from Cons.IH[OF i] i show ?case
    by (auto split: prod.splits sum.splits)
qed

lemma subst_invariant:
  "wf_table vs \<Longrightarrow> memo_ok vs \<Longrightarrow> wf_table (snd (subst vs t)) \<and> memo_ok (snd (subst vs t))"
  using resolve_each_invariant[of vs "dependencies (Value_init t)"]
  by (auto simp: subst_def Let_def split: prod.splits sum.splits)

lemma get_invariant:
  "wf_table vs \<Longrightarrow> memo_ok vs \<Longrightarrow> wf_table (snd (get vs n)) \<and> memo_ok (snd (get vs n))"
  using Variables_resolve_invariant[of vs n]
  by (auto simp: get_def split: prod.splits sum.splits error.splits)

lemma expand_invariant:
  "wf_table vs \<and> memo_ok vs \<Longrightarrow>
   wf_table (snd (snd (expand vs node))) \<and> memo_ok (snd (snd (expand vs node)))"
  "wf_table vs \<and> memo_ok vs \<Longrightarrow>
   wf_table (snd (snd (expand_entries vs entries))) \<and> memo_ok (snd (snd (expand_entries vs entries)))"
  "wf_table vs \<and> memo_ok vs \<Longrightarrow>
   wf_table (snd (snd (expand_items vs items))) \<and> memo_ok (snd (snd (expand_items vs items)))"
proof (induction vs node and vs entries and vs items rule: expand_expand_entries_expand_items.induct)
  case (1 vs t)
  then show ?case using subst_invariant[of vs t] by (auto split: prod.splits sum.splits)
next
  case (2 vs entries)
  then show ?case by (auto split: prod.splits)
next
  case (3 vs items)
  then show ?case by (auto split: prod.splits)
next
  case (4 vs)
  then show ?case by simp
next
  case (5 vs entry rest)
  then show ?case by (fastforce split: prod.splits sum.splits)
next
  case (6 vs)
  then show ?case by simp
next
  case (7 vs key entry rest)
  then show ?case by (fastforce split: prod.splits sum.splits)
qed

lemma iterate_from_invariant:
  "wf_table vs \<Longrightarrow> memo_ok vs \<Longrightarrow>
   wf_table (snd (iterate_from vs names)) \<and> memo_ok (snd (iterate_from vs names))"
proof (induction names arbitrary: vs)
  case Nil
  then show ?case by simp
next
  case (Cons a names)
  from Variables_resolve_invariant[OF Cons.prems, of a]
  have i: "wf_table (snd (Variables_resolve vs a))" "memo_ok (snd (Variables_resolve vs a))"
    by simp_all
  from Cons.IH[OF i] i show ?case
    by (auto simp: getitem_def split: prod.splits sum.splits option.splits)
qed

lemma perform_invariant:
  "wf_table vs \<Longrightarrow> memo_ok vs \<Longrightarrow> wf_table (perform op vs) \<and> memo_ok (perform op vs)"
  by (cases op)
     (simp_all add: getitem_def check_def iterate_def Variables_resolve_invariant
        get_invariant subst_invariant expand_invariant resolve_each_invariant
        iterate_from_invariant)

lemma fold_perform_invariant:
  "wf_table vs \<Longrightarrow> memo_ok vs \<Longrightarrow>
   wf_table (fold perform ops vs) \<and> memo_ok (fold perform ops vs)"
  by (induction ops arbitrary: vs) (simp_all add: perform_invariant)

lemma reachable_tables_invariant:
  "wf_table (fold perform ops (init_values node)) \<and> memo_ok (fold perform ops (init_values node))"
  by (rule fold_perform_invariant[OF wf_table_init_values memo_ok_init_values])

section \<open>\<^verbatim>\<open>subst\<close> and \<^verbatim>\<open>expand\<close>\<close>

lemma subst_all_append:
  "subst_all vs (a @ b) =
     (case subst_all vs a of
        (Inl e, a', vs') \<Rightarrow> (Inl e, a' @ b, vs')
      | (Inr u, a', vs') \<Rightarrow>
          (case subst_all vs' b of (r, b', vs'') \<Rightarrow> (r, a' @ b', vs'')))"
  by (induction a arbitrary: vs) (auto split: prod.splits sum.splits)

lemma expand_leaves:
  "shape (fst (snd (expand vs node))) = shape node
   \<and> (fst (expand vs node), leaves (fst (snd (expand vs node))), snd (snd (expand vs node)))
       = subst_all vs (leaves node)"
  "shape_entries (fst (snd (expand_entries vs entries))) = shape_entries entries
   \<and> (fst (expand_entries vs entries), leaves_entries (fst (snd (expand_entries vs entries))),
        snd (snd (expand_entries vs entries)))
       = subst_all vs (leaves_entries entries)"
  "shape_items (fst (snd (expand_items vs items))) = shape_items items
   \<and> (fst (expand_items vs items), leaves_items (fst (snd (expand_items vs items))),
        snd (snd (expand_items vs items)))
       = subst_all vs (leaves_items items)"
proof (induction vs node and vs entries and vs items rule: expand_expand_entries_expand_items.induct)
  case (1 vs t)
  show ?case by (auto split: prod.splits sum.splits)
next
  case (2 vs entries)
  then show ?case by (auto split: prod.splits)
next
  case (3 vs items)
  then show ?case by (auto split: prod.splits)
next
  case (4 vs)
  show ?case by simp
next
  case (5 vs entry rest)
  obtain r1 e1 vs1 where x: "expand vs entry = (r1, e1, vs1)" by (cases "expand vs entry")
  from "5.IH"(1) x have s1: "shape e1 = shape entry"
    and l1: "subst_all vs (leaves entry) = (r1, leaves e1, vs1)" by simp_all
  show ?case
  proof (cases r1)
    case (Inl e)
    with x s1 l1 show ?thesis by (simp add: subst_all_append)
  next
    case (Inr u)
    obtain r2 es2 vs2 where y: "expand_entries vs1 rest = (r2, es2, vs2)"
      by (cases "expand_entries vs1 rest")
    from "5.IH"(2)[OF x[symmetric] Inr refl] y
    have "shape_entries es2 = shape_entries rest"
      and "subst_all vs1 (leaves_entries rest) = (r2, leaves_entries es2, vs2)" by simp_all
    with Inr x y s1 l1 show ?thesis by (simp add: subst_all_append)
  qed
next
  case (6 vs)
  show ?case by simp
next
  case (7 vs key entry rest)
  obtain r1 e1 vs1 where x: "expand vs entry = (r1, e1, vs1)" by (cases "expand vs entry")
  from "7.IH"(1) x have s1: "shape e1 = shape entry"
    and l1: "subst_all vs (leaves entry) = (r1, leaves e1, vs1)" by simp_all
  show ?case
  proof (cases r1)
    case (Inl e)
    with x s1 l1 show ?thesis by (simp add: subst_all_append)
  next
    case (Inr u)
    obtain r2 es2 vs2 where y: "expand_items vs1 rest = (r2, es2, vs2)"
      by (cases "expand_items vs1 rest")
    from "7.IH"(2)[OF x[symmetric] Inr refl] y
    have "shape_items es2 = shape_items rest"
      and "subst_all vs1 (leaves_items rest) = (r2, leaves_items es2, vs2)" by simp_all
    with Inr x y s1 l1 show ?thesis by (simp add: subst_all_append)
  qed
qed

lemma resolve_each_success:
  "wf_table vs \<Longrightarrow> memo_ok vs \<Longrightarrow> resolve_each vs names = (Inr u, vs1) \<Longrightarrow>
   extends vs vs1 \<and> (\<forall>d \<in> set names. memo vs1 d \<noteq> None) \<and> wf_table vs1 \<and> memo_ok vs1"
proof (induction names arbitrary: vs)
  case Nil
  then show ?case by (simp add: extends_refl)
next
  case (Cons a names)
  obtain r vsa where ra: "Variables_resolve vs a = (r, vsa)" by (cases "Variables_resolve vs a")
  with Cons.prems(3) obtain x where r: "r = Inr x" and rest: "resolve_each vsa names = (Inr u, vs1)"
    by (cases r) auto
  from Variables_resolve_outcome[OF Cons.prems(1), of a] ra r Cons.prems(2)
  obtain s where ma: "memo vsa a = Some s" and exa: "extends vs vsa" and moa: "memo_ok vsa"
    by auto
  from Variables_resolve_invariant[OF Cons.prems(1,2), of a] ra have wfa: "wf_table vsa" by simp
  from Cons.IH[OF wfa moa rest] have ex1: "extends vsa vs1"
    and al: "\<forall>d \<in> set names. memo vs1 d \<noteq> None" and wf1: "wf_table vs1" and mo1: "memo_ok vs1"
    by simp_all
  from ex1 ma have "memo vs1 a = Some s" by (simp add: extends_def)
  with al have "\<forall>d \<in> set (a # names). memo vs1 d \<noteq> None" by simp
  with extends_trans[OF exa ex1] wf1 mo1 show ?case by blast
qed

lemma subst_expands:
  assumes "wf_table vs" and "memo_ok vs" and "subst vs t = (Inr s, vs')"
  shows "expands_parts vs (parse_string t) s \<and> extends vs vs' \<and> wf_table vs' \<and> memo_ok vs'"
proof -
  let ?v = "Value_init t"
  have un: "resolved ?v = None" and ps: "parts (value_class ?v) = parse_string t"
    and dv: "dependencies ?v = variable_names (ValueClass_init t)"
    by (simp_all add: Value_init_def ValueClass_init_def Let_def dependencies_def)
  obtain r vs1 where re: "resolve_each vs (dependencies ?v) = (r, vs1)"
    by (cases "resolve_each vs (dependencies ?v)")
  with assms(3) obtain u where r: "r = Inr u" by (cases r) (auto simp: subst_def Let_def)
  from resolve_each_success[OF assms(1,2) re[unfolded r]]
  have ex: "extends vs vs1" and al: "\<forall>d \<in> set (dependencies ?v). memo vs1 d \<noteq> None"
    and wf1: "wf_table vs1" and mo1: "memo_ok vs1" by simp_all
  have deps: "\<forall>p \<in> set (parts (value_class ?v)). is_variable p \<longrightarrow> memo vs1 (part_text p) \<noteq> None"
  proof (intro ballI impI)
    fix p assume "p \<in> set (parts (value_class ?v))" and "is_variable p"
    with wf_class_init[of t] have "part_text p \<in> set (variable_names (ValueClass_init t))"
      by (auto simp: wf_class_def Value_init_def)
    with al dv show "memo vs1 (part_text p) \<noteq> None" by simp
  qed
  let ?s = "concat (map the (map (part_value vs1) (parts (value_class ?v))))"
  have vr: "Value_resolve vs1 ?v = Inr (?s, ?v\<lparr>resolved := Some ?s\<rparr>)"
    by (rule Value_resolve_ok[OF un deps])
  have "subst vs t = (Inr ?s, vs1)"
    using vr by (simp add: subst_def Let_def re r)
  with assms(3) have "(Inr s, vs') = (Inr ?s :: error + string, vs1)" by (rule trans[OF sym])
  then have s: "s = ?s" and v': "vs' = vs1" by blast+
  from part_values_expand[OF mo1 deps] s ps have "expands_parts vs1 (parse_string t) s" by simp
  moreover from ex have "\<forall>m. class_of vs m = class_of vs1 m" by (simp add: extends_def)
  ultimately have "expands_parts vs (parse_string t) s"
    by (rule expands_same_classes(2)[rotated])
  with ex wf1 mo1 v' show ?thesis by simp
qed

lemma subst_all_expands:
  "wf_table vs \<Longrightarrow> memo_ok vs \<Longrightarrow> subst_all vs ts = (Inr u, ts', vs') \<Longrightarrow>
   list_all2 (\<lambda>t t'. expands_parts vs (parse_string t) t') ts ts'"
proof (induction ts arbitrary: vs ts')
  case Nil
  then show ?case by simp
next
  case (Cons t ts)
  obtain r vs1 where st: "subst vs t = (r, vs1)" by (cases "subst vs t")
  with Cons.prems(3) obtain s where r: "r = Inr s" by (cases r) auto
  obtain r2 ts2 vs2 where sa: "subst_all vs1 ts = (r2, ts2, vs2)" by (cases "subst_all vs1 ts")
  with st r Cons.prems(3) have r2: "r2 = Inr u" and ts': "ts' = s # ts2" and v2: "vs2 = vs'"
    by simp_all
  from subst_expands[OF Cons.prems(1,2) st[unfolded r]]
  have e: "expands_parts vs (parse_string t) s" and ex: "extends vs vs1"
    and wf1: "wf_table vs1" and mo1: "memo_ok vs1" by simp_all
  from Cons.IH[OF wf1 mo1 sa[unfolded r2 v2]]
  have "list_all2 (\<lambda>t t'. expands_parts vs1 (parse_string t) t') ts ts2" .
  moreover from ex have c: "\<forall>m. class_of vs m = class_of vs1 m" by (simp add: extends_def)
  ultimately have "list_all2 (\<lambda>t t'. expands_parts vs (parse_string t) t') ts ts2"
    by (auto elim!: list_all2_mono intro: expands_same_classes(2)[OF c])
  with e ts' show ?case by simp
qed

section \<open>The claims\<close>

text \<open>
  Claim C1. \<^verbatim>\<open>get(name)\<close> returns \<^verbatim>\<open>None\<close> when resolution fails for an undefined variable,
  and a circular reference is to leave \<^verbatim>\<open>get\<close> as an error. On the store with
  \<^verbatim>\<open>a = "%{a}"\<close> the lookup of \<^verbatim>\<open>a\<close> raises the circular-reference error, but \<^verbatim>\<open>get("a")\<close>
  catches it and returns \<^verbatim>\<open>None\<close>, the value it returns for an undefined variable.
\<close>

theorem get_returns_None_on_circular_reference:
  "fst (getitem (init_values [(''a'', ''%{a}'')]) ''a'')
     = Inl (LoadError CIRCULAR_REFERENCE_VARIABLE)
   \<and> fst (get (init_values [(''a'', ''%{a}'')]) ''a'') = Inr None"
  by code_simp

text \<open>
  Claim C2. In a store whose memos are full expansions, when every name that the
  requested name reaches through references is defined and none of them lies on a
  cycle of references, the lookup returns the template of the name with every
  \<^verbatim>\<open>%{x}\<close> replaced, in order, by the full expansion of \<open>x\<close>; that string is unique. With
  \<^verbatim>\<open>base = "hello"\<close> and \<^verbatim>\<open>greet = "%{base} world"\<close> it is \<^verbatim>\<open>"hello world"\<close>.
\<close>

theorem lookup_returns_full_expansion:
  assumes "wf_table values" and "memo_ok values"
    and "\<forall>y. (name, y) \<in> (dep values)\<^sup>* \<longrightarrow> map_of values y \<noteq> None"
    and "\<forall>y. (name, y) \<in> (dep values)\<^sup>* \<longrightarrow> (y, y) \<notin> (dep values)\<^sup>+"
  shows "\<exists>s. fst (getitem values name) = Inr (Some s) \<and> expands values name s
              \<and> (\<forall>t. expands values name t \<longrightarrow> t = s)"
proof -
  from Variables_resolve_outcome[OF assms(1), of name] assms(3,4)
  obtain s vs' where r: "Variables_resolve values name = (Inr (Some s), vs')"
    and m: "memo vs' name = Some s" and ex: "extends values vs'"
    and mo: "memo_ok values \<longrightarrow> memo_ok vs'"
    by blast
  from mo assms(2) have "memo_ok vs'" by simp
  from memo_expands[OF this ex m] have e: "expands values name s" .
  have u: "\<forall>t. expands values name t \<longrightarrow> t = s"
  proof (intro allI impI)
    fix t assume "expands values name t"
    from expands_functional(1)[OF this e] show "t = s" .
  qed
  from r have "fst (getitem values name) = Inr (Some s)" by (simp add: getitem_def)
  with e u show ?thesis by blast
qed

theorem lookup_returns_full_expansion_witness:
  "fst (getitem (init_values [(''base'', ''hello''), (''greet'', ''%{base} world'')]) ''greet'')
     = Inr (Some ''hello world'')
   \<and> expands (init_values [(''base'', ''hello''), (''greet'', ''%{base} world'')]) ''greet''
       ''hello world''"
proof -
  let ?S = "init_values [(''base'', ''hello''), (''greet'', ''%{base} world'')]"
  have a: "variable_names (value_class (Value_init ''hello'')) = []" by code_simp
  have b: "variable_names (value_class (Value_init ''%{base} world'')) = [''base'']"
    by code_simp
  have d: "dep ?S = {(''greet'', ''base'')}"
    by (auto simp: dep_def deps_of_def map_of_init_values a b split: option.splits if_splits)
  have h1: "wf_table ?S" by (rule wf_table_init_values)
  have h2: "memo_ok ?S" by (rule memo_ok_init_values)
  have h3: "\<forall>y. (''greet'', y) \<in> (dep ?S)\<^sup>* \<longrightarrow> map_of ?S y \<noteq> None"
    unfolding d by (auto simp: rtrancl_insert map_of_init_values)
  have h4: "\<forall>y. (''greet'', y) \<in> (dep ?S)\<^sup>* \<longrightarrow> (y, y) \<notin> (dep ?S)\<^sup>+"
    unfolding d by (auto simp: rtrancl_insert trancl_insert)
  from lookup_returns_full_expansion[OF h1 h2 h3 h4] obtain s where
    r: "fst (getitem ?S ''greet'') = Inr (Some s)" and e: "expands ?S ''greet'' s" by blast
  have c: "fst (getitem ?S ''greet'') = Inr (Some ''hello world'')" by code_simp
  with r have "s = ''hello world''" by simp
  with c e show ?thesis by simp
qed

text \<open>
  Claim C3, as stated: whenever the chain of references from the requested name
  revisits a variable, resolution raises the circular-reference error. In the store
  with \<^verbatim>\<open>a = "%{a}%{missing}"\<close> the variable \<^verbatim>\<open>a\<close> refers to itself, and the lookup of \<^verbatim>\<open>a\<close>
  raises the undefined-variable error: the names of a step are looked up before the
  step that they queue is checked.
\<close>

theorem undefined_reference_raised_before_cycle:
  "''a'' \<in> deps_of (init_values [(''a'', ''%{a}%{missing}'')]) ''a''
   \<and> fst (getitem (init_values [(''a'', ''%{a}%{missing}'')]) ''a'')
       = Inl (LoadError UNRESOLVED_VARIABLE)"
  by code_simp

text \<open>
  Claim C3, amended. In a store whose memos are full expansions, when every name that
  the requested name reaches through references is defined and one of them lies on a
  cycle of references, the lookup raises the circular-reference error and leaves the
  table as it is. The self-reference \<^verbatim>\<open>a = "%{a}"\<close> and the cycle \<^verbatim>\<open>a = "%{b}"\<close>,
  \<^verbatim>\<open>b = "%{a}"\<close> are instances.
\<close>

theorem circular_reference_raised:
  assumes "wf_table values" and "memo_ok values"
    and "\<forall>y. (name, y) \<in> (dep values)\<^sup>* \<longrightarrow> map_of values y \<noteq> None"
    and "\<exists>y. (name, y) \<in> (dep values)\<^sup>* \<and> (y, y) \<in> (dep values)\<^sup>+"
  shows "getitem values name = (Inl (LoadError CIRCULAR_REFERENCE_VARIABLE), values)"
proof -
  have "\<not> (\<exists>s vs'. Variables_resolve values name = (Inr (Some s), vs') \<and> memo vs' name = Some s
              \<and> extends values vs' \<and> (memo_ok values \<longrightarrow> memo_ok vs'))"
  proof
    assume "\<exists>s vs'. Variables_resolve values name = (Inr (Some s), vs') \<and> memo vs' name = Some s
              \<and> extends values vs' \<and> (memo_ok values \<longrightarrow> memo_ok vs')"
    then obtain s vs' where m: "memo vs' name = Some s" and ex: "extends values vs'"
      and mo: "memo_ok values \<longrightarrow> memo_ok vs'" by blast
    from mo assms(2) have "memo_ok vs'" by simp
    from memo_expands[OF this ex m] have e: "expands values name s" .
    from assms(4) obtain y where y: "(name, y) \<in> (dep values)\<^sup>*"
      and c: "(y, y) \<in> (dep values)\<^sup>+" by blast
    from expands_reachable[OF assms(1) e y] obtain t where "expands values y t" by blast
    from expands_acyclic(1)[OF assms(1) this] c show False by simp
  qed
  with Variables_resolve_outcome[OF assms(1), of name] assms(3)
  have "Variables_resolve values name = (Inl (LoadError CIRCULAR_REFERENCE_VARIABLE), values)"
    by blast
  then show ?thesis by (simp add: getitem_def)
qed

theorem circular_reference_raised_witness:
  "fst (getitem (init_values [(''a'', ''%{b}''), (''b'', ''%{a}'')]) ''a'')
     = Inl (LoadError CIRCULAR_REFERENCE_VARIABLE)
   \<and> fst (getitem (init_values [(''a'', ''%{a}'')]) ''a'')
     = Inl (LoadError CIRCULAR_REFERENCE_VARIABLE)"
proof -
  let ?S = "init_values [(''a'', ''%{b}''), (''b'', ''%{a}'')]"
  let ?T = "init_values [(''a'', ''%{a}'')]"
  have a: "variable_names (value_class (Value_init ''%{b}'')) = [''b'']" by code_simp
  have b: "variable_names (value_class (Value_init ''%{a}'')) = [''a'']" by code_simp
  have d: "dep ?S = {(''a'', ''b''), (''b'', ''a'')}"
    by (auto simp: dep_def deps_of_def map_of_init_values a b split: option.splits if_splits)
  have s3: "\<forall>y. (''a'', y) \<in> (dep ?S)\<^sup>* \<longrightarrow> map_of ?S y \<noteq> None"
    unfolding d by (auto simp: rtrancl_insert map_of_init_values)
  have s4: "\<exists>y. (''a'', y) \<in> (dep ?S)\<^sup>* \<and> (y, y) \<in> (dep ?S)\<^sup>+"
    unfolding d by (rule exI[of _ "''a''"]) (auto simp: trancl_insert)
  have e: "dep ?T = {(''a'', ''a'')}"
    by (auto simp: dep_def deps_of_def map_of_init_values b split: option.splits if_splits)
  have t3: "\<forall>y. (''a'', y) \<in> (dep ?T)\<^sup>* \<longrightarrow> map_of ?T y \<noteq> None"
    unfolding e by (auto simp: rtrancl_insert map_of_init_values)
  have t4: "\<exists>y. (''a'', y) \<in> (dep ?T)\<^sup>* \<and> (y, y) \<in> (dep ?T)\<^sup>+"
    unfolding e by (rule exI[of _ "''a''"]) (auto simp: trancl_insert)
  from circular_reference_raised[OF wf_table_init_values memo_ok_init_values s3 s4]
  have 1: "fst (getitem ?S ''a'') = Inl (LoadError CIRCULAR_REFERENCE_VARIABLE)" by simp
  from circular_reference_raised[OF wf_table_init_values memo_ok_init_values t3 t4]
  have 2: "fst (getitem ?T ''a'') = Inl (LoadError CIRCULAR_REFERENCE_VARIABLE)" by simp
  from 1 2 show ?thesis by (rule conjI)
qed

text \<open>
  Claim C4. For every template string the parser gives an ordered list of literal and
  variable parts such that: writing each variable part as \<^verbatim>\<open>%{name}\<close> and each literal part
  as its text gives the string back; no part is empty; the text of a variable part
  matches \<^verbatim>\<open>[a-zA-Z][a-zA-Z0-9_-]*\<close>; no literal part contains a reference \<^verbatim>\<open>%{name}\<close> with
  such a name; and no two literal parts are adjacent. Text that does not match, as
  \<^verbatim>\<open>%{1bad}\<close> and \<^verbatim>\<open>%{}\<close>, is one literal part. The parser is a total function and has no
  error.
\<close>

theorem parse_string_parts:
  "render (parse_string s) = s
   \<and> (\<forall>p \<in> set (parse_string s).
         part_text p \<noteq> []
         \<and> (is_variable p \<longrightarrow> valid_name (part_text p))
         \<and> (\<not> is_variable p \<longrightarrow>
              (\<forall>u n w. part_text p = u @ ''%{'' @ n @ ''}'' @ w \<longrightarrow> \<not> valid_name n)))
   \<and> \<not> adjacent_literals (parse_string s)
   \<and> parse_string ''%{1bad}'' = [\<lparr>part_text = ''%{1bad}'', is_variable = False\<rparr>]
   \<and> parse_string ''%{}'' = [\<lparr>part_text = ''%{}'', is_variable = False\<rparr>]"
proof -
  have a: "render (parse_string s) = s"
    using render_parse[of "[]" s] by (simp add: parse_string_def)
  have b: "\<forall>p \<in> set (parse_string s).
         part_text p \<noteq> []
         \<and> (is_variable p \<longrightarrow> valid_name (part_text p))
         \<and> (\<not> is_variable p \<longrightarrow>
              (\<forall>u n w. part_text p = u @ ''%{'' @ n @ ''}'' @ w \<longrightarrow> \<not> valid_name n))"
  proof
    fix p assume p: "p \<in> set (parse_string s)"
    from p have 1: "part_text p \<noteq> []"
      using parts_nonempty[of "[]" s] by (simp add: parse_string_def)
    from p have 2: "is_variable p \<longrightarrow> valid_name (part_text p)"
      using variable_parts_valid[of "[]" s] by (simp add: parse_string_def)
    from p have "\<not> is_variable p \<longrightarrow> \<not> search_expansion (part_text p)"
      using literal_parts_no_match[of "[]" s] by (simp add: parse_string_def)
    then have 3: "\<not> is_variable p \<longrightarrow>
              (\<forall>u n w. part_text p = u @ ''%{'' @ n @ ''}'' @ w \<longrightarrow> \<not> valid_name n)"
      using search_expansion_reference by metis
    from 1 2 3 show "part_text p \<noteq> []
         \<and> (is_variable p \<longrightarrow> valid_name (part_text p))
         \<and> (\<not> is_variable p \<longrightarrow>
              (\<forall>u n w. part_text p = u @ ''%{'' @ n @ ''}'' @ w \<longrightarrow> \<not> valid_name n))"
      by blast
  qed
  have c: "\<not> adjacent_literals (parse_string s)"
    using no_adjacent_literals[of "[]" s] by (simp add: parse_string_def)
  have d: "parse_string ''%{1bad}'' = [\<lparr>part_text = ''%{1bad}'', is_variable = False\<rparr>]"
    by code_simp
  have e: "parse_string ''%{}'' = [\<lparr>part_text = ''%{}'', is_variable = False\<rparr>]"
    by code_simp
  from a b c d e show ?thesis by blast
qed

theorem parse_string_parts_witness:
  "parse_string ''a%{b}%{c-1}%{1bad}''
     = [\<lparr>part_text = ''a'', is_variable = False\<rparr>,
        \<lparr>part_text = ''b'', is_variable = True\<rparr>,
        \<lparr>part_text = ''c-1'', is_variable = True\<rparr>,
        \<lparr>part_text = ''%{1bad}'', is_variable = False\<rparr>]
   \<and> render (parse_string ''a%{b}%{c-1}%{1bad}'') = ''a%{b}%{c-1}%{1bad}''
   \<and> valid_name ''c-1''
   \<and> \<not> valid_name ''1bad''"
proof -
  have h: "parse_string ''a%{b}%{c-1}%{1bad}''
     = [\<lparr>part_text = ''a'', is_variable = False\<rparr>,
        \<lparr>part_text = ''b'', is_variable = True\<rparr>,
        \<lparr>part_text = ''c-1'', is_variable = True\<rparr>,
        \<lparr>part_text = ''%{1bad}'', is_variable = False\<rparr>]"
    by code_simp
  note t = parse_string_parts[of "''a%{b}%{c-1}%{1bad}''"]
  from t have r: "render (parse_string ''a%{b}%{c-1}%{1bad}'') = ''a%{b}%{c-1}%{1bad}''"
    by (rule conjunct1)
  from t have "\<forall>p \<in> set (parse_string ''a%{b}%{c-1}%{1bad}'').
         part_text p \<noteq> []
         \<and> (is_variable p \<longrightarrow> valid_name (part_text p))
         \<and> (\<not> is_variable p \<longrightarrow>
              (\<forall>u n w. part_text p = u @ ''%{'' @ n @ ''}'' @ w \<longrightarrow> \<not> valid_name n))"
    by blast
  then have q: "\<forall>p \<in> set [\<lparr>part_text = ''a'', is_variable = False\<rparr>,
        \<lparr>part_text = ''b'', is_variable = True\<rparr>,
        \<lparr>part_text = ''c-1'', is_variable = True\<rparr>,
        \<lparr>part_text = ''%{1bad}'', is_variable = False\<rparr>].
         part_text p \<noteq> []
         \<and> (is_variable p \<longrightarrow> valid_name (part_text p))
         \<and> (\<not> is_variable p \<longrightarrow>
              (\<forall>u n w. part_text p = u @ ''%{'' @ n @ ''}'' @ w \<longrightarrow> \<not> valid_name n))"
    unfolding h .
  from q have v: "valid_name ''c-1''" by simp
  from q have "\<forall>u n w. ''%{1bad}'' = u @ ''%{'' @ n @ ''}'' @ w \<longrightarrow> \<not> valid_name n"
    by simp
  from this[rule_format, of "[]" "''1bad''" "[]"] have n: "\<not> valid_name ''1bad''" by simp
  from h r v n show ?thesis by blast
qed

text \<open>
  Claim C5. For every store and every name the resolution driver terminates, and it
  either returns a string or raises the undefined-variable or the circular-reference
  error. The first loop is the total function \<open>while_step\<close>, whose termination is proved
  from the bound \<open>stack_weight\<close>: a step that passes \<^verbatim>\<open>check_circular\<close> has a referee that
  none of its ancestors has, so a chain of steps is no longer than the table. The
  theorem adds that the driver ends in one of the three outcomes: it returns no \<^verbatim>\<open>None\<close>
  and raises no \<open>KeyError\<close>, \<open>TypeError\<close> or \<open>AttributeError\<close>.
\<close>

theorem resolve_returns_string_or_LoadError:
  assumes "wf_table values"
  shows "(\<exists>s. fst (getitem values name) = Inr (Some s))
       \<or> fst (getitem values name) = Inl (LoadError UNRESOLVED_VARIABLE)
       \<or> fst (getitem values name) = Inl (LoadError CIRCULAR_REFERENCE_VARIABLE)"
proof -
  from Variables_resolve_outcome[OF assms, of name]
  consider "Variables_resolve values name = (Inl (LoadError UNRESOLVED_VARIABLE), values)"
    | "Variables_resolve values name = (Inl (LoadError CIRCULAR_REFERENCE_VARIABLE), values)"
    | s vs' where "Variables_resolve values name = (Inr (Some s), vs')"
    by blast
  then show ?thesis by cases (simp_all add: getitem_def)
qed

theorem resolve_returns_string_or_LoadError_witness:
  "wf_table (init_values [(''a'', ''%{b}%{c}''), (''b'', ''%{c}%{a}''), (''c'', ''x'')])
   \<and> ((\<exists>s. fst (getitem (init_values [(''a'', ''%{b}%{c}''), (''b'', ''%{c}%{a}''), (''c'', ''x'')])
               ''a'') = Inr (Some s))
      \<or> fst (getitem (init_values [(''a'', ''%{b}%{c}''), (''b'', ''%{c}%{a}''), (''c'', ''x'')])
               ''a'') = Inl (LoadError UNRESOLVED_VARIABLE)
      \<or> fst (getitem (init_values [(''a'', ''%{b}%{c}''), (''b'', ''%{c}%{a}''), (''c'', ''x'')])
               ''a'') = Inl (LoadError CIRCULAR_REFERENCE_VARIABLE))"
proof -
  have w: "wf_table (init_values [(''a'', ''%{b}%{c}''), (''b'', ''%{c}%{a}''), (''c'', ''x'')])"
    by (rule wf_table_init_values)
  from w resolve_returns_string_or_LoadError[OF w, of "''a''"] show ?thesis by (rule conjI)
qed

text \<open>
  Claim C6. A resolution that fails with an undefined-variable or a circular-reference
  error writes no memo: the table after the failed call is the table before it, so
  every value that was unresolved is still unresolved.
\<close>

theorem failed_resolution_leaves_table:
  assumes "fst (getitem values name) = Inl (LoadError reason)"
  shows "snd (getitem values name) = values"
  using assms by (simp add: getitem_def Variables_resolve_LoadError_unchanged)

theorem failed_resolution_leaves_table_witness:
  "fst (getitem (init_values [(''a'', ''%{b}%{c}''), (''b'', ''x''), (''c'', ''%{missing}'')]) ''a'')
     = Inl (LoadError UNRESOLVED_VARIABLE)
   \<and> snd (getitem (init_values [(''a'', ''%{b}%{c}''), (''b'', ''x''), (''c'', ''%{missing}'')]) ''a'')
     = init_values [(''a'', ''%{b}%{c}''), (''b'', ''x''), (''c'', ''%{missing}'')]"
proof -
  have h: "fst (getitem (init_values [(''a'', ''%{b}%{c}''), (''b'', ''x''), (''c'', ''%{missing}'')]) ''a'')
     = Inl (LoadError UNRESOLVED_VARIABLE)"
    by code_simp
  from failed_resolution_leaves_table[OF h] h show ?thesis by simp
qed

text \<open>
  Claim C7. Once the memo of a value is set, no sequence of operations of the store
  (lookup, \<^verbatim>\<open>get\<close>, \<^verbatim>\<open>subst\<close>, \<^verbatim>\<open>expand\<close>, \<^verbatim>\<open>check\<close>, iteration) clears or changes it: the
  stored value is the same afterwards, and a later lookup returns the memoized string
  and leaves the table as it is.
\<close>

theorem memo_is_write_once:
  assumes "map_of values n = Some v" and "resolved v = Some s"
  shows "map_of (fold perform ops values) n = Some v
         \<and> getitem (fold perform ops values) n = (Inr (Some s), fold perform ops values)"
proof -
  have k: "map_of (fold perform ops values) n = Some v"
    using assms by (rule fold_perform_keeps)
  from k assms(2) show ?thesis
    by (simp add: getitem_def Variables_resolve_memo)
qed

theorem memo_is_write_once_witness:
  "map_of (snd (getitem (init_values [(''base'', ''hello''), (''greet'', ''%{base} world'')]) ''greet''))
       ''greet''
     = Some \<lparr>value_class = ValueClass_init ''%{base} world'', resolved = Some ''hello world''\<rparr>
   \<and> fst (getitem
          (fold perform
             [Check, Subst ''%{greet}!'', Get ''nothing'', Iterate,
              Expand (SequenceNode [ScalarNode ''%{base}'']), Lookup ''base'']
             (snd (getitem (init_values [(''base'', ''hello''), (''greet'', ''%{base} world'')])
                     ''greet'')))
          ''greet'')
     = Inr (Some ''hello world'')"
  (is "?A \<and> ?B")
proof -
  have h: "map_of (snd (getitem (init_values [(''base'', ''hello''), (''greet'', ''%{base} world'')]) ''greet''))
       ''greet''
     = Some \<lparr>value_class = ValueClass_init ''%{base} world'', resolved = Some ''hello world''\<rparr>"
    by code_simp
  have r: "resolved \<lparr>value_class = ValueClass_init ''%{base} world'', resolved = Some ''hello world''\<rparr>
             = Some ''hello world''"
    by simp
  from memo_is_write_once[OF h r] have "?B"
    by (simp only: fst_conv)
  with h show ?thesis by (rule conjI)
qed

text \<open>
  Claim C8. When the input mapping has a true entry for \<^verbatim>\<open>notparallel\<close>, construction sets
  \<^verbatim>\<open>max-jobs\<close> to the template \<^verbatim>\<open>"1"\<close> before the values are parsed, whatever the input had
  for \<^verbatim>\<open>max-jobs\<close>: the store holds the fresh value parsed from \<^verbatim>\<open>"1"\<close> under \<^verbatim>\<open>max-jobs\<close>,
  and the lookup of \<^verbatim>\<open>max-jobs\<close> returns \<^verbatim>\<open>"1"\<close>. The keys of the input mapping are
  distinct, as those of a dictionary are.
\<close>

theorem notparallel_forces_max_jobs:
  assumes "distinct (map fst node)" and "get_bool node ''notparallel'' False = Inr True"
  shows "\<exists>values. Variables_init get_bool node = Inr values
           \<and> map_of values ''max-jobs'' = Some (Value_init ''1'')
           \<and> fst (getitem values ''max-jobs'') = Inr (Some ''1'')"
proof -
  let ?node = "AList.update ''max-jobs'' ''1'' node"
  have i: "Variables_init get_bool node = Inr (init_values ?node)"
    using assms(2) by (simp add: Variables_init_def)
  have "distinct (map fst ?node)"
    using assms(1) by (rule distinct_update)
  then have m: "map_of (init_values ?node) ''max-jobs'' = Some (Value_init ''1'')"
    by (simp add: map_of_init_values update_conv')
  have "\<not> search_expansion ''1''" by code_simp
  from Variables_resolve_literal[OF this m]
  have "fst (getitem (init_values ?node) ''max-jobs'') = Inr (Some ''1'')"
    by (simp add: getitem_def)
  with i m show ?thesis by blast
qed

theorem notparallel_forces_max_jobs_witness:
  "distinct (map fst [(''notparallel'', ''true''), (''max-jobs'', ''4'')])
   \<and> (\<lambda>node key default.
         case map_of node key of None \<Rightarrow> Inr default | Some t \<Rightarrow> Inr (t = ''true''))
        [(''notparallel'', ''true''), (''max-jobs'', ''4'')] ''notparallel'' False
       = (Inr True :: error + bool)
   \<and> (\<exists>values.
         Variables_init
           (\<lambda>node key default.
              case map_of node key of None \<Rightarrow> Inr default | Some t \<Rightarrow> Inr (t = ''true''))
           [(''notparallel'', ''true''), (''max-jobs'', ''4'')] = Inr values
         \<and> fst (getitem values ''max-jobs'') = Inr (Some ''1''))"
  (is "?D \<and> ?G \<and> ?C")
proof -
  have d: ?D by simp
  have g: ?G by simp
  from notparallel_forces_max_jobs
         [where node = "[(''notparallel'', ''true''), (''max-jobs'', ''4'')]"
            and get_bool = "\<lambda>node key default.
              case map_of node key of None \<Rightarrow> Inr default | Some t \<Rightarrow> Inr (t = ''true'')",
          OF d g]
  have ?C by blast
  with d g show ?thesis by blast
qed

text \<open>
  Claim C9. \<^verbatim>\<open>expand\<close> leaves the structure of the tree as it is (the kinds of the nodes,
  the children, their order and the keys) and rewrites the scalar leaves only: the
  texts of the leaves, the result and the table after the call are those of
  substituting the leaf texts one after the other in document order. When the call
  returns, in a store whose memos are full expansions, the new text of every leaf is
  its old text with every \<^verbatim>\<open>%{x}\<close> replaced by the full expansion of \<open>x\<close>. When a
  substitution raises, the leaves before it are rewritten and the others are not.
\<close>

theorem expand_rewrites_scalar_leaves:
  "shape (fst (snd (expand values node))) = shape node
   \<and> (fst (expand values node), leaves (fst (snd (expand values node))),
        snd (snd (expand values node)))
       = subst_all values (leaves node)
   \<and> (wf_table values \<longrightarrow> memo_ok values \<longrightarrow> fst (expand values node) = Inr () \<longrightarrow>
        list_all2 (\<lambda>t t'. expands_parts values (parse_string t) t')
          (leaves node) (leaves (fst (snd (expand values node)))))"
proof -
  note l = expand_leaves(1)[of "values" node]
  have "list_all2 (\<lambda>t t'. expands_parts values (parse_string t) t')
          (leaves node) (leaves (fst (snd (expand values node))))"
    if "wf_table values" and "memo_ok values" and "fst (expand values node) = Inr ()"
  proof -
    from l that(3) have "subst_all values (leaves node)
        = (Inr (), leaves (fst (snd (expand values node))), snd (snd (expand values node)))"
      by simp
    from subst_all_expands[OF that(1,2) this] show ?thesis .
  qed
  with l show ?thesis by blast
qed

theorem expand_rewrites_scalar_leaves_witness:
  "fst (snd (expand (init_values [(''base'', ''hello''), (''greet'', ''%{base} world'')])
               (MappingNode [(''k'', ScalarNode ''%{greet}!''),
                             (''l'', SequenceNode [ScalarNode ''x''])])))
     = MappingNode [(''k'', ScalarNode ''hello world!''), (''l'', SequenceNode [ScalarNode ''x''])]
   \<and> expands_parts (init_values [(''base'', ''hello''), (''greet'', ''%{base} world'')])
         (parse_string ''%{greet}!'') ''hello world!''"
proof -
  let ?S = "init_values [(''base'', ''hello''), (''greet'', ''%{base} world'')]"
  let ?N = "MappingNode [(''k'', ScalarNode ''%{greet}!''), (''l'', SequenceNode [ScalarNode ''x''])]"
  have n: "fst (snd (expand ?S ?N))
     = MappingNode [(''k'', ScalarNode ''hello world!''), (''l'', SequenceNode [ScalarNode ''x''])]"
    by code_simp
  have r: "fst (expand ?S ?N) = Inr ()" by code_simp
  from expand_rewrites_scalar_leaves[of ?S ?N] wf_table_init_values[of "[(''base'', ''hello''), (''greet'', ''%{base} world'')]"]
    memo_ok_init_values[of "[(''base'', ''hello''), (''greet'', ''%{base} world'')]"] r
  have "list_all2 (\<lambda>t t'. expands_parts ?S (parse_string t) t')
          (leaves ?N) (leaves (fst (snd (expand ?S ?N))))"
    by blast
  then have "expands_parts ?S (parse_string ''%{greet}!'') ''hello world!''"
    unfolding n by simp
  with n show ?thesis by (rule conjI)
qed

text \<open>
  Claim C10. When the reference pattern matches nowhere in a template (the empty
  string, plain text, malformed references), resolving a variable bound to that
  template returns the template unchanged, on the first lookup and on the next.
\<close>

theorem plain_template_resolves_to_itself:
  assumes "\<not> search_expansion raw" and "map_of values name = Some (Value_init raw)"
  shows "fst (getitem values name) = Inr (Some raw)
         \<and> fst (getitem (snd (getitem values name)) name) = Inr (Some raw)"
proof -
  let ?v = "(Value_init raw)\<lparr>resolved := Some raw\<rparr>"
  from Variables_resolve_literal[OF assms]
  have r: "getitem values name = (Inr (Some raw), AList.update name ?v values)"
    by (simp add: getitem_def)
  have "map_of (AList.update name ?v values) name = Some ?v"
    by (simp add: update_conv')
  then have "getitem (AList.update name ?v values) name
             = (Inr (Some raw), AList.update name ?v values)"
    unfolding getitem_def by (rule Variables_resolve_memo) simp
  with r show ?thesis by simp
qed

theorem plain_template_resolves_to_itself_witness:
  "\<not> search_expansion ''%{1bad} and %{}''
   \<and> map_of (init_values [(''e'', []), (''m'', ''%{1bad} and %{}'')]) ''m''
       = Some (Value_init ''%{1bad} and %{}'')
   \<and> fst (getitem (init_values [(''e'', []), (''m'', ''%{1bad} and %{}'')]) ''m'')
       = Inr (Some ''%{1bad} and %{}'')
   \<and> \<not> search_expansion []
   \<and> map_of (init_values [(''e'', []), (''m'', ''%{1bad} and %{}'')]) ''e''
       = Some (Value_init [])
   \<and> fst (getitem (init_values [(''e'', []), (''m'', ''%{1bad} and %{}'')]) ''e'')
       = Inr (Some [])"
  (is "?A \<and> ?B \<and> ?C \<and> ?D \<and> ?E \<and> ?F")
proof -
  have a: ?A by code_simp
  have b: ?B by (simp add: map_of_init_values)
  have d: ?D by simp
  have e: ?E by (simp add: map_of_init_values)
  from plain_template_resolves_to_itself[OF a b] have c: ?C by (rule conjunct1)
  from plain_template_resolves_to_itself[OF d e] have f: ?F by (rule conjunct1)
  from a b c d e f show ?thesis by blast
qed


end
